theory Spec2Isabelle
  imports Main "HOL-Library.Sublist"
begin

section \<open>Python values and exceptions\<close>

text \<open>
  The values of \<open>asset_metadata\<close> are arbitrary Python objects; the model keeps the
  three shapes the code distinguishes (a \<open>str\<close>, \<open>None\<close>, anything else).
  Exceptions are values: every \<open>raise\<close> of the source, of \<open>os\<close>, \<open>open\<close> and
  \<open>pickle\<close> is a constructor of \<open>error\<close>, named after the Python exception.
  \<open>KeyError\<close> and \<open>FileNotFoundError\<close> are what the specification calls
  NotFoundError, \<open>CheckError\<close> is what it calls ConfigError. \<open>OSError\<close> stands
  for the plain \<open>OSError\<close> that a name too long for the system raises.
\<close>

datatype pyval = PyNone | PyStr string | PyInt int

datatype error =
    TypeError
  | KeyError
  | CheckError string
  | FileNotFoundError
  | NotADirectoryError
  | IsADirectoryError
  | FileExistsError
  | ValueError
  | OSError
  | PicklingError
  | UnpicklingError

text \<open>
  Modelled from the spec: \<open>check.str_param\<close> (module \<open>dagster.check\<close>, not under src/).
  The specification says that a value that is not a string fails fast, and that a
  missing explicit path or a missing version is a ConfigError; the model returns the
  string, or fails with \<open>CheckError\<close> carrying the parameter name the source passes.
\<close>

definition str_param :: "pyval \<Rightarrow> string \<Rightarrow> error + string" where
  "str_param obj param_name =
     (case obj of PyStr s \<Rightarrow> Inr s | PyNone \<Rightarrow> Inl (CheckError param_name)
      | PyInt i \<Rightarrow> Inl (CheckError param_name))"

text \<open>
  Modelled from the spec: \<open>check.opt_dict_param\<close> (module \<open>dagster.check\<close>, not under
  src/): an absent dictionary becomes the empty one.
\<close>

definition opt_dict_param :: "(string \<rightharpoonup> pyval) option \<Rightarrow> (string \<rightharpoonup> pyval)" where
  "opt_dict_param obj = (case obj of None \<Rightarrow> Map.empty | Some d \<Rightarrow> d)"

definition opt_str :: "string option \<Rightarrow> pyval" where
  "opt_str x = (case x of None \<Rightarrow> PyNone | Some s \<Rightarrow> PyStr s)"

definition dict_get :: "(string \<rightharpoonup> pyval) \<Rightarrow> string \<Rightarrow> pyval" where
  "dict_get d k = (case d k of None \<Rightarrow> PyNone | Some v \<Rightarrow> v)"

section \<open>Path strings: the functions of \<open>os.path\<close> the stores call\<close>

definition sep :: char where
  "sep = CHR ''/''"

definition isabs :: "string \<Rightarrow> bool" where
  "isabs s = (case s of [] \<Rightarrow> False | c # cs \<Rightarrow> c = sep)"

text \<open>One round of the loop of \<open>posixpath.join\<close>.\<close>

definition join2 :: "string \<Rightarrow> string \<Rightarrow> string" where
  "join2 path b =
     (if isabs b then b
      else if path = [] \<or> last path = sep then path @ b
      else path @ sep # b)"

fun join_all :: "string \<Rightarrow> string option list \<Rightarrow> error + string" where
  "join_all path [] = Inr path"
| "join_all path (None # bs) = Inl TypeError"
| "join_all path (Some b # bs) = join_all (join2 path b) bs"

text \<open>\<open>os.path.join(a, *p)\<close>; a component that is \<open>None\<close> raises \<open>TypeError\<close>.\<close>

definition os_path_join :: "string option \<Rightarrow> string option list \<Rightarrow> error + string" where
  "os_path_join a p = (case a of None \<Rightarrow> Inl TypeError | Some a' \<Rightarrow> join_all a' p)"

text \<open>\<open>str.split('/')\<close>: the pieces between separators, empty pieces included.\<close>

fun split_sep :: "string \<Rightarrow> string list" where
  "split_sep [] = [[]]"
| "split_sep (c # cs) =
     (if c = sep then [] # split_sep cs
      else (case split_sep cs of [] \<Rightarrow> [[c]] | x # xs \<Rightarrow> (c # x) # xs))"

definition rstrip_sep :: "string \<Rightarrow> string" where
  "rstrip_sep s = rev (dropWhile (\<lambda>c. c = sep) (rev s))"

text \<open>
  \<open>os.path.dirname\<close>: everything up to the last separator, with trailing separators
  removed unless nothing else is left.
\<close>

definition dirname :: "string \<Rightarrow> string" where
  "dirname p =
     (let head = rev (dropWhile (\<lambda>c. c \<noteq> sep) (rev p))
      in if head \<noteq> [] \<and> head \<noteq> replicate (length head) sep then rstrip_sep head else head)"

text \<open>
  The loop body of \<open>posixpath.normpath\<close>: empty and \<open>.\<close> components are dropped,
  \<open>..\<close> removes the component before it (and is dropped at the root of an absolute
  path).
\<close>

definition norm_step :: "bool \<Rightarrow> string list \<Rightarrow> string \<Rightarrow> string list" where
  "norm_step initial_slashes new_comps cmp =
     (if cmp = [] \<or> cmp = ''.'' then new_comps
      else if cmp \<noteq> ''..'' \<or> (\<not> initial_slashes \<and> new_comps = [])
              \<or> (new_comps \<noteq> [] \<and> last new_comps = ''..'')
        then new_comps @ [cmp]
      else if new_comps \<noteq> [] then butlast new_comps
      else new_comps)"

fun join_sep :: "string list \<Rightarrow> string" where
  "join_sep [] = []"
| "join_sep [c] = c"
| "join_sep (c # cs) = c @ sep # join_sep cs"

definition normpath :: "string \<Rightarrow> string" where
  "normpath path =
     (if path = [] then ''.''
      else
        let initial_slashes =
              (if isabs path \<and> take 2 path = ''//'' \<and> take 3 path \<noteq> ''///'' then 2
               else if isabs path then 1 else (0::nat));
            comps = foldl (norm_step (initial_slashes \<noteq> 0)) [] (split_sep path);
            p = replicate initial_slashes sep @ join_sep comps
        in if p = [] then ''.'' else p)"

text \<open>\<open>os.path.abspath\<close>, with the result of \<open>os.getcwd()\<close> as a parameter.\<close>

definition abspath :: "string \<Rightarrow> string \<Rightarrow> string" where
  "abspath cwd path = normpath (if isabs path then path else join2 cwd path)"

section \<open>The filesystem\<close>

text \<open>
  The filesystem is a map from absolute component lists to nodes; the root \<open>[]\<close> is
  always a directory. Path strings are byte strings. A system call walks a path string
  as the kernel does: one component after the other, from the root or from the working
  directory, and every component it leaves has to be an existing directory, also the
  ones a later \<open>..\<close> leaves again. A name of more than 255 bytes, a path of 4096
  bytes or more and a \<open>NUL\<close> byte are refused.

  Outside the model are symbolic links, permissions, quotas and other limits of
  resources, other processes, and platforms whose paths are not POSIX paths.
\<close>

datatype node = File string | Dir

record filesystem =
  files :: "string list \<rightharpoonup> node"
  cwd :: string

text \<open>
  The components of \<open>os.path.abspath\<close> of a path string, relative to the working
  directory \<open>wd\<close>: \<open>..\<close> is cancelled by its text, as \<open>normpath\<close> does. No
  operation on the filesystem uses it; it says where a path without \<open>..\<close> leads.
\<close>

definition resolve :: "string \<Rightarrow> string \<Rightarrow> string list" where
  "resolve wd path =
     foldl (norm_step True) [] (split_sep (if isabs path then path else join2 wd path))"

definition lookup :: "(string list \<rightharpoonup> node) \<Rightarrow> string list \<Rightarrow> node option" where
  "lookup fs p = (if p = [] then Some Dir else fs p)"

text \<open>
  The components that make a walk move, and the node it starts from: the root, or the
  working directory, which \<open>cwd\<close> names as \<open>os.getcwd()\<close> does, by an absolute path
  without \<open>.\<close> and \<open>..\<close>.
\<close>

definition steps :: "string \<Rightarrow> string list" where
  "steps path = filter (\<lambda>c. c \<noteq> [] \<and> c \<noteq> ''.'') (split_sep path)"

definition start_node :: "filesystem \<Rightarrow> string \<Rightarrow> string list" where
  "start_node fs path = (if isabs path then [] else steps (cwd fs))"

text \<open>
  The kernel's walk from the directory \<open>cur\<close>: before each step \<open>cur\<close> has to be a
  directory; \<open>..\<close> goes up, a name goes down. The node the last step reaches is not
  looked at.
\<close>

fun walk :: "(string list \<rightharpoonup> node) \<Rightarrow> string list \<Rightarrow> string list \<Rightarrow> error + string list" where
  "walk fs cur [] = Inr cur"
| "walk fs cur (c # cs) =
     (case lookup fs cur of
        None \<Rightarrow> Inl FileNotFoundError
      | Some (File b) \<Rightarrow> Inl NotADirectoryError
      | Some Dir \<Rightarrow>
          if c = ''..'' then walk fs (butlast cur) cs
          else if 255 < length c then Inl OSError
          else walk fs (cur @ [c]) cs)"

text \<open>A path string that can only name a directory: it ends in \<open>/\<close>, \<open>.\<close> or \<open>..\<close>.\<close>

definition names_directory :: "string \<Rightarrow> bool" where
  "names_directory path = (last (split_sep path) \<in> {[], ''.'', ''..''})"

text \<open>What Python and the kernel refuse before any lookup.\<close>

definition refused :: "string \<Rightarrow> error option" where
  "refused path =
     (if CHR 0x00 \<in> set path then Some ValueError
      else if path = [] then Some FileNotFoundError
      else if 4096 \<le> length path then Some OSError
      else None)"

text \<open>\<open>os.stat\<close>: the node a path string names.\<close>

definition stat :: "filesystem \<Rightarrow> string \<Rightarrow> error + node" where
  "stat fs path =
     (case refused path of
        Some e \<Rightarrow> Inl e
      | None \<Rightarrow>
          (case walk (files fs) (start_node fs path) (steps path) of
             Inl e \<Rightarrow> Inl e
           | Inr p \<Rightarrow>
               (case lookup (files fs) p of
                  None \<Rightarrow> Inl FileNotFoundError
                | Some Dir \<Rightarrow> Inr Dir
                | Some (File b) \<Rightarrow>
                    if names_directory path then Inl NotADirectoryError else Inr (File b))))"

text \<open>
  \<open>os.path.exists\<close> and \<open>os.path.isdir\<close> answer \<open>False\<close> on every error of
  \<open>os.stat\<close>.
\<close>

definition os_path_exists :: "filesystem \<Rightarrow> string \<Rightarrow> bool" where
  "os_path_exists fs path = (case stat fs path of Inl e \<Rightarrow> False | Inr n \<Rightarrow> True)"

definition os_path_isdir :: "filesystem \<Rightarrow> string \<Rightarrow> bool" where
  "os_path_isdir fs path = (case stat fs path of Inl e \<Rightarrow> False | Inr n \<Rightarrow> n = Dir)"

text \<open>\<open>open(path, "rb")\<close> followed by reading the whole file.\<close>

definition open_rb :: "filesystem \<Rightarrow> string \<Rightarrow> error + string" where
  "open_rb fs path =
     (case stat fs path of
        Inl e \<Rightarrow> Inl e
      | Inr Dir \<Rightarrow> Inl IsADirectoryError
      | Inr (File b) \<Rightarrow> Inr b)"

text \<open>
  \<open>open(path, "wb")\<close>: the directory of the file has to exist, the file is created or
  truncated. The result is the node that will receive the bytes. A path that ends in
  \<open>/\<close> is refused as a directory once the walk to the component before the last has
  succeeded.
\<close>

definition open_wb :: "filesystem \<Rightarrow> string \<Rightarrow> error + string list" where
  "open_wb fs path =
     (case refused path of
        Some e \<Rightarrow> Inl e
      | None \<Rightarrow>
          if last path = sep then
            (case walk (files fs) (start_node fs path) (butlast (steps path)) of
               Inl e \<Rightarrow> Inl e
             | Inr d \<Rightarrow>
                 (case lookup (files fs) d of
                    None \<Rightarrow> Inl FileNotFoundError
                  | Some (File b) \<Rightarrow> Inl NotADirectoryError
                  | Some Dir \<Rightarrow> Inl IsADirectoryError))
          else
            (case walk (files fs) (start_node fs path) (steps path) of
               Inl e \<Rightarrow> Inl e
             | Inr p \<Rightarrow>
                 (case lookup (files fs) p of
                    Some Dir \<Rightarrow> Inl IsADirectoryError
                  | Some (File b) \<Rightarrow>
                      if names_directory path then Inl NotADirectoryError else Inr p
                  | None \<Rightarrow>
                      if names_directory path then Inl FileNotFoundError else Inr p)))"

definition write_file :: "filesystem \<Rightarrow> string list \<Rightarrow> string \<Rightarrow> filesystem" where
  "write_file fs p bytes = fs\<lparr>files := (files fs)(p \<mapsto> File bytes)\<rparr>"

text \<open>
  What \<open>os.makedirs\<close> does to the filesystem, component by component: \<open>n\<close> is the
  number of bytes of the path before the component \<open>c\<close>. Every missing directory is
  created, a \<open>..\<close> goes up from the directory that was just made sure of. It stops at
  a file on the way and at a prefix of the path that the system refuses.
\<close>

fun makedirs :: "(string list \<rightharpoonup> node) \<Rightarrow> string list \<Rightarrow> nat \<Rightarrow> string list
                 \<Rightarrow> error option \<times> (string list \<rightharpoonup> node)" where
  "makedirs fs cur n [] = (None, fs)"
| "makedirs fs cur n (c # cs) =
     (if c = [] then makedirs fs cur (Suc n) cs
      else if CHR 0x00 \<in> set c then (Some ValueError, fs)
      else if 4096 \<le> n + length c then (Some OSError, fs)
      else
        (case lookup fs cur of
           None \<Rightarrow> (Some FileNotFoundError, fs)
         | Some (File b) \<Rightarrow> (Some NotADirectoryError, fs)
         | Some Dir \<Rightarrow>
             if c = ''.'' then makedirs fs cur (Suc (n + length c)) cs
             else if c = ''..'' then makedirs fs (butlast cur) (Suc (n + length c)) cs
             else if 255 < length c then (Some OSError, fs)
             else
               (case lookup fs (cur @ [c]) of
                  None \<Rightarrow> makedirs (fs(cur @ [c] \<mapsto> Dir)) (cur @ [c]) (Suc (n + length c)) cs
                | Some Dir \<Rightarrow> makedirs fs (cur @ [c]) (Suc (n + length c)) cs
                | Some (File b) \<Rightarrow>
                    (Some (if cs = [] then FileExistsError else NotADirectoryError), fs))))"

text \<open>
  Modelled from the spec: \<open>mkdir_p\<close> (module \<open>dagster.utils\<close>, not under src/). The
  specification says that a write ensures that all parent directories exist, and that
  doing so is idempotent: every missing directory on the way is created, a directory
  that exists is left alone. It does so with \<open>os.makedirs\<close>, which fails at a file on
  the way, at a name the system refuses, and on the empty path.
\<close>

definition mkdir_p :: "filesystem \<Rightarrow> string \<Rightarrow> error option \<times> filesystem" where
  "mkdir_p fs path =
     (if path = [] then (Some FileNotFoundError, fs)
      else case makedirs (files fs) (start_node fs path) 0 (split_sep path) of
             (r, fs') \<Rightarrow> (r, fs\<lparr>files := fs'\<rparr>))"

section \<open>The serializer\<close>

text \<open>
  \<open>pickle.dump\<close> and \<open>pickle.load\<close> are parameters of the model. \<open>dump\<close> gives
  the bytes it wrote to the open file and whether it returned (\<open>True\<close>) or raised
  (\<open>False\<close>); \<open>load\<close> gives the value, or \<open>None\<close> when it raises. A value
  round-trips when \<open>dump\<close> returns and \<open>load\<close> of the bytes is the value.
\<close>

record 'v pickle =
  dump :: "'v \<Rightarrow> string \<times> bool"
  load :: "string \<Rightarrow> 'v option"

definition round_trips :: "'v pickle \<Rightarrow> 'v \<Rightarrow> bool" where
  "round_trips P v = (snd (dump P v) \<and> load P (fst (dump P v)) = Some v)"

text \<open>The body of \<open>with open(filepath, "wb") as write_obj: pickle.dump(obj, write_obj, ...)\<close>.\<close>

definition pickle_to_file :: "'v pickle \<Rightarrow> filesystem \<Rightarrow> string \<Rightarrow> 'v
                              \<Rightarrow> error option \<times> filesystem" where
  "pickle_to_file P fs filepath obj =
     (case open_wb fs filepath of
        Inl e \<Rightarrow> (Some e, fs)
      | Inr p \<Rightarrow>
          (case dump P obj of
             (bytes, ok) \<Rightarrow>
               (if ok then None else Some PicklingError, write_file fs p bytes)))"

text \<open>The body of \<open>with open(filepath, "rb") as read_obj: return pickle.load(read_obj)\<close>.\<close>

definition unpickle_from_file :: "'v pickle \<Rightarrow> filesystem \<Rightarrow> string \<Rightarrow> error + 'v" where
  "unpickle_from_file P fs filepath =
     (case open_rb fs filepath of
        Inl e \<Rightarrow> Inl e
      | Inr bytes \<Rightarrow>
          (case load P bytes of None \<Rightarrow> Inl UnpicklingError | Some v \<Rightarrow> Inr v))"

section \<open>AssetStoreContext\<close>

text \<open>
  The constructor checks the type of every field and raises otherwise; in the model the
  types of the record are these checks, a field that may be \<open>None\<close> is an option,
  and \<open>opt_dict_param\<close> is applied where a context is built from the engine's.
  The stores check that \<open>context\<close> is an \<open>AssetStoreContext\<close>, which the type
  of their argument says.
\<close>

record 'sd AssetStoreContext =
  step_key :: string
  output_name :: string
  asset_metadata :: "string \<rightharpoonup> pyval"
  pipeline_name :: string
  solid_def :: 'sd
  source_run_id :: "string option"
  version :: "string option"

definition get_run_scoped_output_identifier :: "'sd AssetStoreContext \<Rightarrow> string option list" where
  "get_run_scoped_output_identifier self =
     [source_run_id self, Some (step_key self), Some (output_name self)]"

text \<open>
  The engine's contexts (their classes are not under src/): the fields that
  \<open>from_output_context\<close> and \<open>from_load_context\<close> read.
\<close>

record 'sd OutputContext =
  oc_step_key :: string
  oc_name :: string
  oc_metadata :: "(string \<rightharpoonup> pyval) option"
  oc_pipeline_name :: string
  oc_solid_def :: 'sd
  oc_run_id :: "string option"
  oc_version :: "string option"

record 'sd LoadContext =
  upstream_output :: "'sd OutputContext"
  lc_solid_def :: 'sd

definition from_output_context :: "'sd OutputContext \<Rightarrow> 'sd AssetStoreContext" where
  "from_output_context output_context =
     \<lparr> step_key = oc_step_key output_context,
       output_name = oc_name output_context,
       asset_metadata = opt_dict_param (oc_metadata output_context),
       pipeline_name = oc_pipeline_name output_context,
       solid_def = oc_solid_def output_context,
       source_run_id = oc_run_id output_context,
       version = oc_version output_context \<rparr>"

definition from_load_context :: "'sd LoadContext \<Rightarrow> 'sd AssetStoreContext" where
  "from_load_context load_context =
     (let output_context = upstream_output load_context
      in \<lparr> step_key = oc_step_key output_context,
           output_name = oc_name output_context,
           asset_metadata = opt_dict_param (oc_metadata output_context),
           pipeline_name = oc_pipeline_name output_context,
           solid_def = lc_solid_def load_context,
           source_run_id = oc_run_id output_context,
           version = oc_version output_context \<rparr>)"

section \<open>The materialization event\<close>

datatype EventMetadataEntry = fspath string

record AssetMaterialization =
  asset_key :: "string list"
  metadata_entries :: "EventMetadataEntry list"

section \<open>InMemoryAssetStore\<close>

record 'v InMemoryAssetStore =
  store_values :: "string option list \<rightharpoonup> 'v"

definition mem_asset_store :: "'v InMemoryAssetStore" where
  "mem_asset_store = \<lparr> store_values = Map.empty \<rparr>"

definition mem_set_asset :: "'v InMemoryAssetStore \<Rightarrow> 'sd AssetStoreContext \<Rightarrow> 'v
     \<Rightarrow> (error + AssetMaterialization option) \<times> 'v InMemoryAssetStore" where
  "mem_set_asset self context obj =
     (let keys = get_run_scoped_output_identifier context
      in (Inr None, self\<lparr>store_values := (store_values self)(keys \<mapsto> obj)\<rparr>))"

definition mem_get_asset :: "'v InMemoryAssetStore \<Rightarrow> 'sd AssetStoreContext \<Rightarrow> error + 'v" where
  "mem_get_asset self context =
     (let keys = get_run_scoped_output_identifier context
      in case store_values self keys of None \<Rightarrow> Inl KeyError | Some v \<Rightarrow> Inr v)"

section \<open>The filesystem stores\<close>

text \<open>
  The three filesystem classes have the same fields: \<open>base_dir\<close>, and the two modes
  \<open>"wb"\<close> and \<open>"rb"\<close>, which are constants and are the two ways of opening a file
  above. One record stands for the three of them.
\<close>

record FilesystemAssetStore =
  base_dir :: "string option"

subsection \<open>PickledObjectFilesystemAssetStore\<close>

definition fs_get_path :: "FilesystemAssetStore \<Rightarrow> 'sd AssetStoreContext \<Rightarrow> error + string" where
  "fs_get_path self context =
     (let keys = get_run_scoped_output_identifier context
      in os_path_join (base_dir self) keys)"

definition fs_set_asset :: "FilesystemAssetStore \<Rightarrow> 'v pickle \<Rightarrow> 'sd AssetStoreContext \<Rightarrow> 'v
     \<Rightarrow> filesystem \<Rightarrow> (error + AssetMaterialization option) \<times> filesystem" where
  "fs_set_asset self P context obj fs =
     (case fs_get_path self context of
        Inl e \<Rightarrow> (Inl e, fs)
      | Inr filepath \<Rightarrow>
          (case mkdir_p fs (dirname filepath) of
             (Some e, fs1) \<Rightarrow> (Inl e, fs1)
           | (None, fs1) \<Rightarrow>
               (case pickle_to_file P fs1 filepath obj of
                  (Some e, fs2) \<Rightarrow> (Inl e, fs2)
                | (None, fs2) \<Rightarrow> (Inr None, fs2))))"

definition fs_get_asset :: "FilesystemAssetStore \<Rightarrow> 'v pickle \<Rightarrow> 'sd AssetStoreContext
     \<Rightarrow> filesystem \<Rightarrow> error + 'v" where
  "fs_get_asset self P context fs =
     (case fs_get_path self context of
        Inl e \<Rightarrow> Inl e
      | Inr filepath \<Rightarrow> unpickle_from_file P fs filepath)"

subsection \<open>CustomPathPickledObjectFilesystemAssetStore\<close>

definition custom_path_get_path :: "FilesystemAssetStore \<Rightarrow> string \<Rightarrow> error + string" where
  "custom_path_get_path self path = os_path_join (base_dir self) [Some path]"

definition custom_path_set_asset :: "FilesystemAssetStore \<Rightarrow> 'v pickle \<Rightarrow> 'sd AssetStoreContext
     \<Rightarrow> 'v \<Rightarrow> filesystem \<Rightarrow> (error + AssetMaterialization option) \<times> filesystem" where
  "custom_path_set_asset self P context obj fs =
     (case str_param (dict_get (asset_metadata context) ''path'') ''asset_metadata.path'' of
        Inl e \<Rightarrow> (Inl e, fs)
      | Inr path \<Rightarrow>
          (case custom_path_get_path self path of
             Inl e \<Rightarrow> (Inl e, fs)
           | Inr filepath \<Rightarrow>
               (case mkdir_p fs (dirname filepath) of
                  (Some e, fs1) \<Rightarrow> (Inl e, fs1)
                | (None, fs1) \<Rightarrow>
                    (case pickle_to_file P fs1 filepath obj of
                       (Some e, fs2) \<Rightarrow> (Inl e, fs2)
                     | (None, fs2) \<Rightarrow>
                         (Inr (Some
                            \<lparr> asset_key =
                                [pipeline_name context, step_key context, output_name context],
                              metadata_entries = [fspath (abspath (cwd fs2) filepath)] \<rparr>),
                          fs2)))))"

definition custom_path_get_asset :: "FilesystemAssetStore \<Rightarrow> 'v pickle \<Rightarrow> 'sd AssetStoreContext
     \<Rightarrow> filesystem \<Rightarrow> error + 'v" where
  "custom_path_get_asset self P context fs =
     (case str_param (dict_get (asset_metadata context) ''path'') ''asset_metadata.path'' of
        Inl e \<Rightarrow> Inl e
      | Inr path \<Rightarrow>
          (case custom_path_get_path self path of
             Inl e \<Rightarrow> Inl e
           | Inr filepath \<Rightarrow> unpickle_from_file P fs filepath))"

subsection \<open>VersionedPickledObjectFilesystemAssetStore\<close>

definition versioned_get_path :: "FilesystemAssetStore \<Rightarrow> 'sd AssetStoreContext \<Rightarrow> error + string" where
  "versioned_get_path self context =
     (case str_param (PyStr (step_key context)) ''context.step_key'' of
        Inl e \<Rightarrow> Inl e
      | Inr step_key' \<Rightarrow>
          (case str_param (PyStr (output_name context)) ''context.output_name'' of
             Inl e \<Rightarrow> Inl e
           | Inr output_name' \<Rightarrow>
               (case str_param (opt_str (version context)) ''context.version'' of
                  Inl e \<Rightarrow> Inl e
                | Inr version' \<Rightarrow>
                    os_path_join (base_dir self)
                      [Some step_key', Some output_name', Some version'])))"

definition versioned_set_asset :: "FilesystemAssetStore \<Rightarrow> 'v pickle \<Rightarrow> 'sd AssetStoreContext
     \<Rightarrow> 'v \<Rightarrow> filesystem \<Rightarrow> (error + AssetMaterialization option) \<times> filesystem" where
  "versioned_set_asset self P context obj fs =
     (case versioned_get_path self context of
        Inl e \<Rightarrow> (Inl e, fs)
      | Inr filepath \<Rightarrow>
          (case mkdir_p fs (dirname filepath) of
             (Some e, fs1) \<Rightarrow> (Inl e, fs1)
           | (None, fs1) \<Rightarrow>
               (case pickle_to_file P fs1 filepath obj of
                  (Some e, fs2) \<Rightarrow> (Inl e, fs2)
                | (None, fs2) \<Rightarrow> (Inr None, fs2))))"

definition versioned_get_asset :: "FilesystemAssetStore \<Rightarrow> 'v pickle \<Rightarrow> 'sd AssetStoreContext
     \<Rightarrow> filesystem \<Rightarrow> error + 'v" where
  "versioned_get_asset self P context fs =
     (case versioned_get_path self context of
        Inl e \<Rightarrow> Inl e
      | Inr filepath \<Rightarrow> unpickle_from_file P fs filepath)"

definition versioned_has_asset :: "FilesystemAssetStore \<Rightarrow> 'sd AssetStoreContext
     \<Rightarrow> filesystem \<Rightarrow> error + bool" where
  "versioned_has_asset self context fs =
     (case versioned_get_path self context of
        Inl e \<Rightarrow> Inl e
      | Inr filepath \<Rightarrow> Inr (os_path_exists fs filepath \<and> \<not> os_path_isdir fs filepath))"

section \<open>Sequences of writes\<close>

text \<open>
  A history of a store: the \<open>set_asset\<close> calls made so far, oldest first. A call that
  raises leaves the state it had reached, and the next call goes on from there.
\<close>

definition mem_writes :: "'v InMemoryAssetStore \<Rightarrow> ('sd AssetStoreContext \<times> 'v) list
     \<Rightarrow> 'v InMemoryAssetStore" where
  "mem_writes self ws = foldl (\<lambda>st (c, v). snd (mem_set_asset st c v)) self ws"

definition fs_writes :: "FilesystemAssetStore \<Rightarrow> 'v pickle \<Rightarrow> ('sd AssetStoreContext \<times> 'v) list
     \<Rightarrow> filesystem \<Rightarrow> filesystem" where
  "fs_writes self P ws fs = foldl (\<lambda>st (c, v). snd (fs_set_asset self P c v st)) fs ws"

definition custom_path_writes :: "FilesystemAssetStore \<Rightarrow> 'v pickle
     \<Rightarrow> ('sd AssetStoreContext \<times> 'v) list \<Rightarrow> filesystem \<Rightarrow> filesystem" where
  "custom_path_writes self P ws fs =
     foldl (\<lambda>st (c, v). snd (custom_path_set_asset self P c v st)) fs ws"

definition versioned_writes :: "FilesystemAssetStore \<Rightarrow> 'v pickle
     \<Rightarrow> ('sd AssetStoreContext \<times> 'v) list \<Rightarrow> filesystem \<Rightarrow> filesystem" where
  "versioned_writes self P ws fs =
     foldl (\<lambda>st (c, v). snd (versioned_set_asset self P c v st)) fs ws"

section \<open>Vocabulary of the properties\<close>

text \<open>A string that is one path segment: a file name, not \<open>.\<close> or \<open>..\<close>.\<close>

definition path_segment :: "string \<Rightarrow> bool" where
  "path_segment s = (s \<noteq> [] \<and> sep \<notin> set s \<and> s \<noteq> ''.'' \<and> s \<noteq> ''..'')"

text \<open>Contexts whose key fields are present and are one path segment each.\<close>

definition run_scoped_segments :: "'sd AssetStoreContext \<Rightarrow> bool" where
  "run_scoped_segments c =
     (case source_run_id c of None \<Rightarrow> False
      | Some r \<Rightarrow> path_segment r \<and> path_segment (step_key c) \<and> path_segment (output_name c))"

definition versioned_segments :: "'sd AssetStoreContext \<Rightarrow> bool" where
  "versioned_segments c =
     (case version c of None \<Rightarrow> False
      | Some v \<Rightarrow> path_segment (step_key c) \<and> path_segment (output_name c) \<and> path_segment v)"

definition version_key :: "'sd AssetStoreContext \<Rightarrow> string \<times> string \<times> string option" where
  "version_key c = (step_key c, output_name c, version c)"

definition is_file :: "node option \<Rightarrow> bool" where
  "is_file n = (case n of Some (File b) \<Rightarrow> True | Some Dir \<Rightarrow> False | None \<Rightarrow> False)"

text \<open>
  Where a walk from \<open>cur\<close> ends when every step of it succeeds, and the node a path
  string names then.
\<close>

fun dest :: "string list \<Rightarrow> string list \<Rightarrow> string list" where
  "dest cur [] = cur"
| "dest cur (c # cs) = dest (if c = ''..'' then butlast cur else cur @ [c]) cs"

definition node_of :: "filesystem \<Rightarrow> string \<Rightarrow> string list" where
  "node_of fs path = dest (start_node fs path) (steps path)"

text \<open>
  A path string that the system does not refuse for its bytes or its length and that
  never goes up: it has no \<open>NUL\<close> byte, fewer than 4096 bytes, no component of more
  than 255 bytes and no component \<open>..\<close>.
\<close>

definition plain_path :: "string \<Rightarrow> bool" where
  "plain_path path =
     (CHR 0x00 \<notin> set path \<and> length path < 4096
      \<and> list_all (\<lambda>c. length c \<le> 255 \<and> c \<noteq> ''..'') (split_sep path))"

definition plain :: "error + string \<Rightarrow> bool" where
  "plain r = (case r of Inl e \<Rightarrow> False | Inr filepath \<Rightarrow> plain_path filepath)"

text \<open>
  Nothing is at \<open>cur @ comps\<close>, and no file is on the way to it from \<open>cur\<close>: a read
  of it finds nothing, and a write to it is not in the way of anything.
\<close>

fun clear_path :: "(string list \<rightharpoonup> node) \<Rightarrow> string list \<Rightarrow> string list \<Rightarrow> bool" where
  "clear_path fs cur [] = (lookup fs cur = None)"
| "clear_path fs cur (c # cs) =
     ((case lookup fs cur of Some (File b) \<Rightarrow> False | Some Dir \<Rightarrow> True | None \<Rightarrow> True)
      \<and> clear_path fs (cur @ [c]) cs)"

text \<open>
  The path a store computed names a node at which the filesystem holds nothing, with
  no file on the way from where the walk starts.
\<close>

definition absent :: "filesystem \<Rightarrow> error + string \<Rightarrow> bool" where
  "absent fs r =
     (case r of
        Inl e \<Rightarrow> False
      | Inr filepath \<Rightarrow> clear_path (files fs) (start_node fs filepath) (steps filepath))"

definition comparable :: "string list \<Rightarrow> string list \<Rightarrow> bool" where
  "comparable x q = (prefix x q \<or> prefix q x)"

text \<open>
  Two computed paths, of which the second never goes up, name nodes of which neither
  is the other nor lies below the other. A path that was not computed (the store
  raised) is unrelated to every path.
\<close>

definition unrelated :: "filesystem \<Rightarrow> error + string \<Rightarrow> error + string \<Rightarrow> bool" where
  "unrelated fs r r' =
     (case r of Inl e \<Rightarrow> True
      | Inr f \<Rightarrow> (case r' of Inl e \<Rightarrow> True
                 | Inr f' \<Rightarrow> ''..'' \<notin> set (steps f')
                            \<and> \<not> comparable (node_of fs f) (node_of fs f')))"

text \<open>
  What a write whose walk ends at the node \<open>q\<close> may change: directories appear where
  nothing was, and a file appears at \<open>q\<close>, where no directory was. When the path
  never goes up, the directories appear on the way to \<open>q\<close>.
\<close>

definition changes :: "(string list \<rightharpoonup> node) \<Rightarrow> (string list \<rightharpoonup> node) \<Rightarrow> string list \<Rightarrow> bool" where
  "changes fs fs' q =
     (\<forall>x. lookup fs' x = lookup fs x
          \<or> (lookup fs x = None \<and> lookup fs' x = Some Dir)
          \<or> (x = q \<and> lookup fs x \<noteq> Some Dir \<and> is_file (lookup fs' x)))"

definition touches :: "(string list \<rightharpoonup> node) \<Rightarrow> (string list \<rightharpoonup> node) \<Rightarrow> string list \<Rightarrow> bool" where
  "touches fs fs' q =
     (\<forall>x. lookup fs' x = lookup fs x
          \<or> (lookup fs x = None \<and> lookup fs' x = Some Dir \<and> comparable x q)
          \<or> (x = q \<and> lookup fs x \<noteq> Some Dir \<and> is_file (lookup fs' x)))"

text \<open>Head and tail of a path string, as \<open>dirname\<close> cuts it.\<close>

definition path_head :: "string \<Rightarrow> string" where
  "path_head p = rev (dropWhile (\<lambda>c. c \<noteq> sep) (rev p))"

definition path_tail :: "string \<Rightarrow> string" where
  "path_tail p = rev (takeWhile (\<lambda>c. c \<noteq> sep) (rev p))"

text \<open>
  The tail the three \<open>set_asset\<close> methods of the filesystem stores have in common:
  make the directories, open the file, pickle into it.
\<close>

definition write_pickled :: "'v pickle \<Rightarrow> filesystem \<Rightarrow> string \<Rightarrow> 'v \<Rightarrow> error option \<times> filesystem" where
  "write_pickled P fs filepath obj =
     (case mkdir_p fs (dirname filepath) of
        (Some e, fs1) \<Rightarrow> (Some e, fs1)
      | (None, fs1) \<Rightarrow> pickle_to_file P fs1 filepath obj)"

text \<open>
  The filesystem after one \<open>set_asset\<close> of a filesystem store, given the path the
  store computed (or the error it raised before touching anything), and after a
  sequence of them.
\<close>

definition after_write :: "'v pickle \<Rightarrow> error + string \<Rightarrow> 'v \<Rightarrow> filesystem \<Rightarrow> filesystem" where
  "after_write P r v fs = (case r of Inl e \<Rightarrow> fs | Inr f \<Rightarrow> snd (write_pickled P fs f v))"

definition writes_to :: "'v pickle \<Rightarrow> ((error + string) \<times> 'v) list \<Rightarrow> filesystem \<Rightarrow> filesystem" where
  "writes_to P rvs fs = foldl (\<lambda>st (r, v). after_write P r v st) fs rvs"

text \<open>
  The path that \<open>set_asset\<close> and \<open>get_asset\<close> of the explicit-path store compute
  from a context.
\<close>

definition custom_path_filepath :: "FilesystemAssetStore \<Rightarrow> 'sd AssetStoreContext \<Rightarrow> error + string" where
  "custom_path_filepath self context =
     (case str_param (dict_get (asset_metadata context) ''path'') ''asset_metadata.path'' of
        Inl e \<Rightarrow> Inl e
      | Inr path \<Rightarrow> custom_path_get_path self path)"

section \<open>Concrete stores, contexts and values\<close>

text \<open>
  A serializer for natural numbers (\<open>n\<close> is written as \<open>n\<close> bytes), a
  filesystem that holds the working directory and nothing else, and the stores and
  contexts of the scenarios.
\<close>

definition unary_pickle :: "nat pickle" where
  "unary_pickle = \<lparr> dump = (\<lambda>n. (replicate n CHR ''x'', True)), load = (\<lambda>b. Some (length b)) \<rparr>"

definition fresh_fs :: filesystem where
  "fresh_fs =
     \<lparr> files = [[''home''] \<mapsto> Dir, [''home'', ''dagster''] \<mapsto> Dir],
       cwd = ''/home/dagster'' \<rparr>"

definition store_tmp_x :: FilesystemAssetStore where
  "store_tmp_x = \<lparr> base_dir = Some ''/tmp/x'' \<rparr>"

definition store_dot :: FilesystemAssetStore where
  "store_dot = \<lparr> base_dir = Some ''.'' \<rparr>"

definition ctx_r1_a_result :: "string AssetStoreContext" where
  "ctx_r1_a_result =
     \<lparr> step_key = ''a'', output_name = ''result'', asset_metadata = Map.empty,
       pipeline_name = ''pipe'', solid_def = ''solid_a'', source_run_id = Some ''r1'',
       version = None \<rparr>"

definition ctx_r1_b_result :: "string AssetStoreContext" where
  "ctx_r1_b_result = ctx_r1_a_result\<lparr> step_key := ''b'', solid_def := ''solid_b'' \<rparr>"

definition ctx_other_pipeline :: "string AssetStoreContext" where
  "ctx_other_pipeline = ctx_r1_a_result\<lparr> pipeline_name := ''other_pipe'', version := Some ''v1'' \<rparr>"

definition ctx_s_out_v7 :: "string AssetStoreContext" where
  "ctx_s_out_v7 =
     \<lparr> step_key = ''s'', output_name = ''out'', asset_metadata = Map.empty,
       pipeline_name = ''pipe'', solid_def = ''solid_s'', source_run_id = Some ''r1'',
       version = Some ''v7'' \<rparr>"

definition ctx_s_out_v8 :: "string AssetStoreContext" where
  "ctx_s_out_v8 = ctx_s_out_v7\<lparr> version := Some ''v8'' \<rparr>"

definition ctx_s_out_v7_run2 :: "string AssetStoreContext" where
  "ctx_s_out_v7_run2 = ctx_s_out_v7\<lparr> source_run_id := Some ''r2'', pipeline_name := ''other_pipe'' \<rparr>"

definition ctx_no_version :: "string AssetStoreContext" where
  "ctx_no_version = ctx_s_out_v7\<lparr> version := None \<rparr>"

definition ctx_reports :: "string AssetStoreContext" where
  "ctx_reports =
     \<lparr> step_key = ''a'', output_name = ''result'',
       asset_metadata = [''path'' \<mapsto> PyStr ''reports/out.bin''],
       pipeline_name = ''pipe'', solid_def = ''solid_a'', source_run_id = Some ''r1'',
       version = None \<rparr>"

definition ctx_reports_other :: "string AssetStoreContext" where
  "ctx_reports_other = ctx_reports\<lparr> asset_metadata := [''path'' \<mapsto> PyStr ''reports/other.bin''] \<rparr>"


text \<open>
  A store whose base directory goes up again after going down, and a context whose
  version is a name of 256 bytes.
\<close>

definition store_up :: FilesystemAssetStore where
  "store_up = \<lparr> base_dir = Some ''/tmp/x/s/out/v7/../../..'' \<rparr>"

definition ctx_long_version :: "string AssetStoreContext" where
  "ctx_long_version = ctx_s_out_v7\<lparr> version := Some (replicate 256 CHR ''v'') \<rparr>"

text \<open>Two contexts whose fields hold a separator.\<close>

definition ctx_ab_c :: "string AssetStoreContext" where
  "ctx_ab_c =
     \<lparr> step_key = ''a/b'', output_name = ''c'', asset_metadata = Map.empty,
       pipeline_name = ''pipe'', solid_def = ''solid_a'', source_run_id = Some ''r1'',
       version = Some ''v'' \<rparr>"

definition ctx_a_bc :: "string AssetStoreContext" where
  "ctx_a_bc = ctx_ab_c\<lparr> step_key := ''a'', output_name := ''b/c'' \<rparr>"

text \<open>An upstream output of \<open>solid_a\<close>, loaded by \<open>solid_b\<close>.\<close>

definition output_of_a :: "string OutputContext" where
  "output_of_a =
     \<lparr> oc_step_key = ''a'', oc_name = ''result'', oc_metadata = None,
       oc_pipeline_name = ''pipe'', oc_solid_def = ''solid_a'', oc_run_id = Some ''r1'',
       oc_version = None \<rparr>"

definition load_by_b :: "string LoadContext" where
  "load_by_b = \<lparr> upstream_output = output_of_a, lc_solid_def = ''solid_b'' \<rparr>"

section \<open>Lemmas: path strings\<close>

lemma split_sep_ne [simp]: "split_sep s \<noteq> []"
  by (induction s) (auto split: list.splits)

lemma split_sep_append: "split_sep (xs @ sep # ys) = split_sep xs @ split_sep ys"
  by (induction xs) (auto split: list.splits)

lemma split_sep_nosep: "sep \<notin> set s \<Longrightarrow> split_sep s = [s]"
  by (induction s) auto

lemma split_sep_snoc_sep: "split_sep (xs @ [sep]) = split_sep xs @ [[]]"
  using split_sep_append[of xs "[]"] by simp

lemma norm_step_empty [simp]: "norm_step a st [] = st"
  by (simp add: norm_step_def)

lemma norm_step_segment: "path_segment c \<Longrightarrow> norm_step a st c = st @ [c]"
  by (simp add: norm_step_def path_segment_def)

lemma segment_not_abs: "path_segment c \<Longrightarrow> \<not> isabs c"
  by (cases c) (auto simp: path_segment_def isabs_def)

lemma absolutise_join2:
  assumes "\<not> isabs c"
  shows "(if isabs (join2 a c) then join2 a c else join2 wd (join2 a c))
         = join2 (if isabs a then a else join2 wd a) c"
  using assms by (cases a; cases wd) (auto simp: join2_def isabs_def)

lemma foldl_split_join2:
  assumes "path_segment c"
  shows "foldl (norm_step True) st (split_sep (join2 x c))
         = foldl (norm_step True) st (split_sep x) @ [c]"
proof -
  have ns: "split_sep c = [c]" using assms by (simp add: split_sep_nosep path_segment_def)
  have na: "\<not> isabs c" using assms by (rule segment_not_abs)
  consider "x = []" | "x \<noteq> []" "last x = sep" | "x \<noteq> []" "last x \<noteq> sep" by blast
  then show ?thesis
  proof cases
    case 1
    then show ?thesis using na ns assms by (simp add: join2_def norm_step_segment)
  next
    case 2
    then obtain x' where x: "x = x' @ [sep]" by (metis append_butlast_last_id)
    have "join2 x c = x' @ sep # c" using na x by (simp add: join2_def)
    then show ?thesis using x ns assms
      by (simp add: split_sep_append split_sep_snoc_sep norm_step_segment)
  next
    case 3
    then have "join2 x c = x @ sep # c" using na by (simp add: join2_def)
    then show ?thesis using ns assms by (simp add: split_sep_append norm_step_segment)
  qed
qed

lemma resolve_join2:
  assumes "path_segment c"
  shows "resolve wd (join2 a c) = resolve wd a @ [c]"
  unfolding resolve_def
  by (simp only: absolutise_join2[OF segment_not_abs[OF assms]] foldl_split_join2[OF assms])

lemma last_split_join2:
  assumes "path_segment c"
  shows "last (split_sep (join2 x c)) = c"
proof -
  have ns: "split_sep c = [c]" using assms by (simp add: split_sep_nosep path_segment_def)
  have na: "\<not> isabs c" using assms by (rule segment_not_abs)
  consider "x = []" | "x \<noteq> []" "last x = sep" | "x \<noteq> []" "last x \<noteq> sep" by blast
  then show ?thesis
  proof cases
    case 1 then show ?thesis using na ns by (simp add: join2_def)
  next
    case 2
    then obtain x' where x: "x = x' @ [sep]" by (metis append_butlast_last_id)
    have "join2 x c = x' @ sep # c" using na x by (simp add: join2_def)
    then show ?thesis using ns by (simp add: split_sep_append)
  next
    case 3
    then have "join2 x c = x @ sep # c" using na by (simp add: join2_def)
    then show ?thesis using ns by (simp add: split_sep_append)
  qed
qed

lemma names_directory_join2: "path_segment c \<Longrightarrow> \<not> names_directory (join2 x c)"
  by (simp add: names_directory_def last_split_join2) (simp add: path_segment_def)

lemma join2_nonempty: "path_segment c \<Longrightarrow> join2 x c \<noteq> []"
  by (auto simp: join2_def path_segment_def)

lemma join2_sep_mem: "x \<noteq> [] \<Longrightarrow> path_segment c \<Longrightarrow> sep \<in> set (join2 x c)"
  using segment_not_abs[of c] by (cases x rule: rev_cases) (auto simp: join2_def)

lemma rstrip_sep_decomp: "\<exists>k. s = rstrip_sep s @ replicate k sep"
proof -
  have "rev s = takeWhile (\<lambda>c. c = sep) (rev s) @ dropWhile (\<lambda>c. c = sep) (rev s)" by simp
  then have "s = rev (dropWhile (\<lambda>c. c = sep) (rev s)) @ rev (takeWhile (\<lambda>c. c = sep) (rev s))"
    by (metis rev_append rev_rev_ident)
  moreover have "takeWhile (\<lambda>c. c = sep) (rev s) = replicate (length (takeWhile (\<lambda>c. c = sep) (rev s))) sep"
    by (rule replicate_length_same[symmetric]) (auto dest: set_takeWhileD)
  ultimately show ?thesis unfolding rstrip_sep_def by (metis rev_replicate)
qed

lemma head_tail: "p = path_head p @ path_tail p"
proof -
  have "rev p = takeWhile (\<lambda>c. c \<noteq> sep) (rev p) @ dropWhile (\<lambda>c. c \<noteq> sep) (rev p)" by simp
  then show ?thesis unfolding path_head_def path_tail_def by (metis rev_append rev_rev_ident)
qed

lemma tail_nosep: "sep \<notin> set (path_tail p)"
  unfolding path_tail_def by (auto dest: set_takeWhileD)

lemma head_shape: "path_head p = [] \<or> (\<exists>h. path_head p = h @ [sep])"
proof (cases "dropWhile (\<lambda>c. c \<noteq> sep) (rev p)")
  case Nil then show ?thesis by (simp add: path_head_def)
next
  case (Cons x xs)
  then have "x = sep" using hd_dropWhile[of "\<lambda>c. c \<noteq> sep" "rev p"] by auto
  with Cons show ?thesis by (simp add: path_head_def)
qed

lemma dirname_head:
  "dirname p = (if path_head p \<noteq> [] \<and> path_head p \<noteq> replicate (length (path_head p)) sep
                then rstrip_sep (path_head p) else path_head p)"
  by (simp add: dirname_def path_head_def Let_def)

lemma dirname_empty_iff: "dirname p = [] \<longleftrightarrow> path_head p = []"
proof
  assume d: "dirname p = []"
  show "path_head p = []"
  proof (rule ccontr)
    assume ne: "path_head p \<noteq> []"
    show False
    proof (cases "path_head p = replicate (length (path_head p)) sep")
      case True with d ne show False by (simp add: dirname_head)
    next
      case False
      with d ne have r: "rstrip_sep (path_head p) = []" by (simp add: dirname_head)
      obtain k where "path_head p = rstrip_sep (path_head p) @ replicate k sep"
        using rstrip_sep_decomp by blast
      with r have "path_head p = replicate k sep" by simp
      then have "path_head p = replicate (length (path_head p)) sep" by (metis length_replicate)
      with False show False by simp
    qed
  qed
next
  assume "path_head p = []" then show "dirname p = []" by (simp add: dirname_head)
qed


lemma isabs_dirname:
  assumes "dirname p \<noteq> []"
  shows "isabs (dirname p) = isabs p"
proof -
  have hne: "path_head p \<noteq> []" using assms dirname_empty_iff by blast
  have 1: "isabs p = isabs (path_head p)"
    using hne head_tail[of p] by (cases "path_head p") (auto simp: isabs_def split: list.splits)
  show ?thesis
  proof (cases "path_head p = replicate (length (path_head p)) sep")
    case True then show ?thesis using 1 hne by (simp add: dirname_head)
  next
    case False
    then have d: "dirname p = rstrip_sep (path_head p)" using hne by (simp add: dirname_head)
    obtain k where "path_head p = rstrip_sep (path_head p) @ replicate k sep"
      using rstrip_sep_decomp by blast
    then have "path_head p = dirname p @ replicate k sep" using d by simp
    then have "isabs (path_head p) = isabs (dirname p)"
      using assms by (cases "dirname p") (auto simp: isabs_def)
    with 1 show ?thesis by simp
  qed
qed

lemma dirname_nonempty: "sep \<in> set p \<Longrightarrow> dirname p \<noteq> []"
proof -
  assume "sep \<in> set p"
  then have "dropWhile (\<lambda>c. c \<noteq> sep) (rev p) \<noteq> []" by (auto simp: dropWhile_eq_Nil_conv)
  then show ?thesis by (simp add: dirname_empty_iff path_head_def)
qed

lemma dirname_Nil [simp]: "dirname [] = []"
  by (simp add: dirname_def)

lemma lookup_upd: "p \<noteq> [] \<Longrightarrow> lookup (fs(p \<mapsto> n)) x = (if x = p then Some n else lookup fs x)"
  by (simp add: lookup_def)

lemma is_file_simps [simp]:
  "is_file None = False" "is_file (Some Dir) = False" "is_file (Some (File b)) = True"
  by (simp_all add: is_file_def)

lemma clear_path_iff:
  "clear_path fs cur cs \<longleftrightarrow>
     lookup fs (cur @ cs) = None \<and> (\<forall>ys. strict_prefix ys cs \<longrightarrow> \<not> is_file (lookup fs (cur @ ys)))"
proof (induction cs arbitrary: cur)
  case Nil
  show ?case by simp
next
  case (Cons c cs)
  have "(\<forall>ys. strict_prefix ys (c # cs) \<longrightarrow> \<not> is_file (lookup fs (cur @ ys)))
        \<longleftrightarrow> \<not> is_file (lookup fs cur) \<and> (\<forall>ys. strict_prefix ys cs \<longrightarrow> \<not> is_file (lookup fs ((cur @ [c]) @ ys)))"
  proof (intro iffI conjI allI impI)
    assume a: "\<forall>ys. strict_prefix ys (c # cs) \<longrightarrow> \<not> is_file (lookup fs (cur @ ys))"
    from a[rule_format, of "[]"] show "\<not> is_file (lookup fs cur)" by simp
    fix ys assume "strict_prefix ys cs"
    then have "strict_prefix (c # ys) (c # cs)" by simp
    from a[rule_format, OF this] show "\<not> is_file (lookup fs ((cur @ [c]) @ ys))" by simp
  next
    fix ys
    assume b: "\<not> is_file (lookup fs cur) \<and> (\<forall>ys. strict_prefix ys cs \<longrightarrow> \<not> is_file (lookup fs ((cur @ [c]) @ ys)))"
      and s: "strict_prefix ys (c # cs)"
    show "\<not> is_file (lookup fs (cur @ ys))"
    proof (cases ys)
      case Nil then show ?thesis using b by simp
    next
      case (Cons y ys')
      with s have "y = c" "strict_prefix ys' cs" by auto
      with b Cons show ?thesis by simp
    qed
  qed
  moreover have "(case lookup fs cur of Some (File b) \<Rightarrow> False | Some Dir \<Rightarrow> True | None \<Rightarrow> True)
                 \<longleftrightarrow> \<not> is_file (lookup fs cur)"
    by (simp add: is_file_def split: option.splits node.splits)
  ultimately show ?case using Cons.IH[of "cur @ [c]"] by auto
qed

lemma write_file_lookup:
  "p \<noteq> [] \<Longrightarrow> lookup (files (write_file fs p b)) x = (if x = p then Some (File b) else lookup (files fs) x)"
  by (simp add: write_file_def lookup_upd)

section \<open>Lemmas: walking the filesystem\<close>

lemma split_sep_trailing: "split_sep (z @ replicate k sep) = split_sep z @ replicate k []"
proof (induction k)
  case 0 show ?case by simp
next
  case (Suc k)
  have "z @ replicate (Suc k) sep = (z @ replicate k sep) @ [sep]"
    by (simp add: replicate_append_same)
  then have "split_sep (z @ replicate (Suc k) sep) = split_sep (z @ replicate k sep) @ [[]]"
    by (simp only: split_sep_snoc_sep)
  with Suc show ?case by (simp add: replicate_append_same)
qed



lemma dirname_decomp: "\<exists>k. path_head p = dirname p @ replicate k sep"
proof (cases "path_head p \<noteq> [] \<and> path_head p \<noteq> replicate (length (path_head p)) sep")
  case True
  then have "dirname p = rstrip_sep (path_head p)" by (simp add: dirname_head)
  with rstrip_sep_decomp[of "path_head p"] show ?thesis by simp
next
  case False
  then have "dirname p = path_head p" by (simp only: dirname_head if_False)
  then have "path_head p = dirname p @ replicate 0 sep" by simp
  then show ?thesis by blast
qed

lemma split_sep_dirname:
  "path_head p = [] \<and> dirname p = [] \<and> split_sep p = [path_tail p]
   \<or> (\<exists>xs k. split_sep p = xs @ [path_tail p] \<and> xs @ [[]] = split_sep (dirname p) @ replicate k [])"
proof -
  have ns: "split_sep (path_tail p) = [path_tail p]" by (rule split_sep_nosep[OF tail_nosep])
  from head_shape[of p] show ?thesis
  proof
    assume h: "path_head p = []"
    then have "p = path_tail p" using head_tail[of p] by simp
    then have "split_sep p = [path_tail p]" using ns by simp
    with h show ?thesis by (simp add: dirname_empty_iff)
  next
    assume "\<exists>h. path_head p = h @ [sep]"
    then obtain h where h: "path_head p = h @ [sep]" ..
    then have "p = h @ sep # path_tail p" using head_tail[of p] by simp
    then have 1: "split_sep p = split_sep h @ [path_tail p]" using ns by (metis split_sep_append)
    obtain k where "path_head p = dirname p @ replicate k sep" using dirname_decomp by blast
    then have "split_sep (path_head p) = split_sep (dirname p) @ replicate k []"
      by (simp only: split_sep_trailing)
    then have "split_sep h @ [[]] = split_sep (dirname p) @ replicate k []"
      using h by (simp add: split_sep_snoc_sep)
    with 1 show ?thesis by blast
  qed
qed

lemma steps_dirname:
  "steps p = steps (dirname p) @ filter (\<lambda>c. c \<noteq> [] \<and> c \<noteq> ''.'') [path_tail p]"
proof -
  from split_sep_dirname[of p] show ?thesis
  proof (elim disjE exE conjE)
    assume "dirname p = []" "split_sep p = [path_tail p]"
    then show ?thesis by (simp add: steps_def)
  next
    fix xs k
    assume 1: "split_sep p = xs @ [path_tail p]"
      and 2: "xs @ [[]] = split_sep (dirname p) @ replicate k []"
    have "filter (\<lambda>c. c \<noteq> [] \<and> c \<noteq> ''.'') (xs @ [[]])
          = filter (\<lambda>c. c \<noteq> [] \<and> c \<noteq> ''.'') (split_sep (dirname p) @ replicate k [])"
      using 2 by simp
    then have "filter (\<lambda>c. c \<noteq> [] \<and> c \<noteq> ''.'') xs = steps (dirname p)"
      by (simp add: steps_def)
    with 1 show ?thesis by (simp add: steps_def)
  qed
qed



lemma steps_subset: "set (steps p) \<subseteq> set (split_sep p)"
  by (auto simp: steps_def)

lemma dotdot_steps: "''..'' \<in> set (steps p) \<longleftrightarrow> ''..'' \<in> set (split_sep p)"
  by (auto simp: steps_def)


lemma steps_join2:
  assumes "path_segment c"
  shows "steps (join2 x c) = steps x @ [c]"
proof -
  have ns: "split_sep c = [c]" using assms by (simp add: split_sep_nosep path_segment_def)
  have na: "\<not> isabs c" using assms by (rule segment_not_abs)
  have c: "c \<noteq> []" "c \<noteq> ''.''" using assms by (auto simp: path_segment_def)
  consider "x = []" | "x \<noteq> []" "last x = sep" | "x \<noteq> []" "last x \<noteq> sep" by blast
  then show ?thesis
  proof cases
    case 1
    then show ?thesis using na ns c by (simp add: join2_def steps_def)
  next
    case 2
    then obtain x' where x: "x = x' @ [sep]" by (metis append_butlast_last_id)
    have "join2 x c = x' @ sep # c" using na x by (simp add: join2_def)
    then show ?thesis using x ns c
      by (simp add: steps_def split_sep_append split_sep_snoc_sep)
  next
    case 3
    then have "join2 x c = x @ sep # c" using na by (simp add: join2_def)
    then show ?thesis using ns c by (simp add: steps_def split_sep_append)
  qed
qed

lemma isabs_join2: "path_segment c \<Longrightarrow> isabs (join2 x c) = isabs x"
  using segment_not_abs[of c]
  by (cases x) (auto simp: join2_def isabs_def split: list.splits)

lemma start_node_join2: "path_segment c \<Longrightarrow> start_node fs (join2 x c) = start_node fs x"
  by (simp add: start_node_def isabs_join2)

lemma dest_append: "dest cur (xs @ ys) = dest (dest cur xs) ys"
  by (induction xs arbitrary: cur) simp_all

lemma dest_plain: "''..'' \<notin> set cs \<Longrightarrow> dest cur cs = cur @ cs"
  by (induction cs arbitrary: cur) auto

lemma node_of_join2: "path_segment c \<Longrightarrow> node_of fs (join2 x c) = node_of fs x @ [c]"
  by (simp add: node_of_def start_node_join2 steps_join2 dest_append path_segment_def)

lemma node_of_plain: "''..'' \<notin> set (steps f) \<Longrightarrow> node_of fs f = start_node fs f @ steps f"
  by (simp add: node_of_def dest_plain)

lemma node_of_cwd: "cwd fs' = cwd fs \<Longrightarrow> node_of fs' f = node_of fs f"
  by (simp add: node_of_def start_node_def)

lemma start_node_cwd: "cwd fs' = cwd fs \<Longrightarrow> start_node fs' f = start_node fs f"
  by (simp add: start_node_def)

lemma start_node_dirname: "dirname f \<noteq> [] \<Longrightarrow> start_node fs (dirname f) = start_node fs f"
  by (simp add: start_node_def isabs_dirname)


lemma walk_dest: "walk fs cur cs = Inr p \<Longrightarrow> p = dest cur cs"
  by (induction cs arbitrary: cur) (auto split: option.splits node.splits if_splits)

lemma walk_mono:
  assumes "\<And>x. lookup fs x = Some Dir \<Longrightarrow> lookup fs' x = Some Dir"
  shows "walk fs cur cs = Inr p \<Longrightarrow> walk fs' cur cs = Inr p"
  by (induction cs arbitrary: cur) (auto split: option.splits node.splits if_splits simp: assms)

lemma walk_clear:
  assumes "clear_path fs cur cs" "''..'' \<notin> set cs" "\<forall>c\<in>set cs. length c \<le> 255"
  shows "walk fs cur cs = Inl FileNotFoundError \<or> walk fs cur cs = Inr (cur @ cs)"
  using assms
proof (induction cs arbitrary: cur)
  case Nil then show ?case by simp
next
  case (Cons c cs)
  have "walk fs (cur @ [c]) cs = Inl FileNotFoundError
        \<or> walk fs (cur @ [c]) cs = Inr ((cur @ [c]) @ cs)"
    by (rule Cons.IH) (use Cons.prems in auto)
  with Cons.prems show ?case by (auto split: option.splits node.splits)
qed


section \<open>Lemmas: making directories\<close>

lemma makedirs_ConsD:
  assumes "makedirs fs cur n (c # cs) = (r, fs')"
  obtains (fail) "r \<noteq> None" "fs' = fs"
  | (skip) "c = [] \<or> c = ''.''" "makedirs fs cur (Suc (n + length c)) cs = (r, fs')"
  | (up) "c = ''..''" "makedirs fs (butlast cur) (Suc (n + length c)) cs = (r, fs')"
  | (down) "c \<noteq> []" "c \<noteq> ''.''" "c \<noteq> ''..''" "lookup fs (cur @ [c]) = Some Dir"
      "makedirs fs (cur @ [c]) (Suc (n + length c)) cs = (r, fs')"
  | (make) "c \<noteq> []" "c \<noteq> ''.''" "c \<noteq> ''..''" "lookup fs (cur @ [c]) = None"
      "makedirs (fs(cur @ [c] \<mapsto> Dir)) (cur @ [c]) (Suc (n + length c)) cs = (r, fs')"
proof (cases "c = []")
  case True
  with assms have "makedirs fs cur (Suc (n + length c)) cs = (r, fs')" by simp
  with True skip show ?thesis by blast
next
  case ne: False
  show ?thesis
  proof (cases "CHR 0x00 \<in> set c \<or> 4096 \<le> n + length c")
    case True
    with assms ne have "r \<noteq> None \<and> fs' = fs" by (auto split: if_splits)
    with fail show ?thesis by blast
  next
    case ok: False
    show ?thesis
    proof (cases "lookup fs cur")
      case None
      with assms ne ok have "r \<noteq> None \<and> fs' = fs" by auto
      with fail show ?thesis by blast
    next
      case (Some nd)
      show ?thesis
      proof (cases nd)
        case (File b)
        with Some assms ne ok have "r \<noteq> None \<and> fs' = fs" by auto
        with fail show ?thesis by blast
      next
        case Dir
        note d = Some[unfolded Dir]
        show ?thesis
        proof (cases "c = ''.''")
          case True
          with assms ne ok d have "makedirs fs cur (Suc (n + length c)) cs = (r, fs')" by simp
          with True skip show ?thesis by blast
        next
          case nd: False
          show ?thesis
          proof (cases "c = ''..''")
            case True
            with assms ne ok d
            have "makedirs fs (butlast cur) (Suc (n + length c)) cs = (r, fs')" by simp
            with True up show ?thesis by blast
          next
            case ndd: False
            show ?thesis
            proof (cases "255 < length c")
              case True
              with assms ne ok d nd ndd have "r \<noteq> None \<and> fs' = fs" by auto
              with fail show ?thesis by blast
            next
              case len: False
              show ?thesis
              proof (cases "lookup fs (cur @ [c])")
                case None
                with assms ne ok d nd ndd len
                have "makedirs (fs(cur @ [c] \<mapsto> Dir)) (cur @ [c]) (Suc (n + length c)) cs = (r, fs')"
                  by simp
                with make ne nd ndd None show ?thesis by blast
              next
                case (Some nd2)
                show ?thesis
                proof (cases nd2)
                  case (File b)
                  with Some assms ne ok d nd ndd len have "r \<noteq> None \<and> fs' = fs" by auto
                  with fail show ?thesis by blast
                next
                  case Dir
                  with Some assms ne ok d nd ndd len
                  have "makedirs fs (cur @ [c]) (Suc (n + length c)) cs = (r, fs')" by simp
                  with down ne nd ndd Some Dir show ?thesis by blast
                qed
              qed
            qed
          qed
        qed
      qed
    qed
  qed
qed

text \<open>
  What \<open>os.makedirs\<close> changes: directories appear where nothing was; when the path
  never goes up, they appear on the way.
\<close>

lemma makedirs_frame:
  "makedirs fs cur n cs = (r, fs') \<Longrightarrow>
   lookup fs' x = lookup fs x
   \<or> (lookup fs x = None \<and> lookup fs' x = Some Dir
      \<and> (''..'' \<notin> set cs \<longrightarrow>
           (\<exists>ys. prefix ys (filter (\<lambda>c. c \<noteq> [] \<and> c \<noteq> ''.'') cs) \<and> x = cur @ ys)))"
proof (induction cs arbitrary: fs cur n)
  case Nil then show ?case by simp
next
  case (Cons c cs)
  from Cons.prems show ?case
  proof (cases rule: makedirs_ConsD)
    case fail then show ?thesis by simp
  next
    case skip
    from Cons.IH[OF skip(2)] skip(1) show ?thesis by auto
  next
    case up
    from Cons.IH[OF up(2)] up(1) show ?thesis by auto
  next
    case down
    from Cons.IH[OF down(5)] down(1,2) show ?thesis
    proof (elim disjE conjE)
      assume "lookup fs' x = lookup fs x" then show ?thesis by simp
    next
      assume a: "lookup fs x = None" "lookup fs' x = Some Dir"
        "''..'' \<notin> set cs \<longrightarrow>
           (\<exists>ys. prefix ys (filter (\<lambda>c. c \<noteq> [] \<and> c \<noteq> ''.'') cs) \<and> x = (cur @ [c]) @ ys)"
      have "\<exists>ys. prefix ys (filter (\<lambda>c. c \<noteq> [] \<and> c \<noteq> ''.'') (c # cs)) \<and> x = cur @ ys"
        if "''..'' \<notin> set (c # cs)"
      proof -
        from that a(3) obtain ys where
          ys: "prefix ys (filter (\<lambda>c. c \<noteq> [] \<and> c \<noteq> ''.'') cs)" "x = (cur @ [c]) @ ys" by auto
        then have "prefix (c # ys) (filter (\<lambda>c. c \<noteq> [] \<and> c \<noteq> ''.'') (c # cs))" "x = cur @ c # ys"
          using down(1,2) by auto
        then show ?thesis by blast
      qed
      with a(1,2) show ?thesis by blast
    qed
  next
    case make
    define fs1 where "fs1 = fs(cur @ [c] \<mapsto> Dir)"
    have l: "lookup fs1 x = (if x = cur @ [c] then Some Dir else lookup fs x)"
      unfolding fs1_def by (rule lookup_upd) simp
    have m5: "makedirs fs1 (cur @ [c]) (Suc (n + length c)) cs = (r, fs')"
      using make(5) by (simp add: fs1_def)
    note ih = Cons.IH[OF m5]
    show ?thesis
    proof (cases "x = cur @ [c]")
      case True
      with ih l have "lookup fs' x = Some Dir" by auto
      moreover have "prefix [c] (filter (\<lambda>c. c \<noteq> [] \<and> c \<noteq> ''.'') (c # cs))"
        using make(1,2) by simp
      ultimately show ?thesis using make(4) True by blast
    next
      case False
      with l have l': "lookup fs1 x = lookup fs x" by simp
      from ih show ?thesis unfolding l'
      proof (elim disjE conjE)
        assume "lookup fs' x = lookup fs x" then show ?thesis by simp
      next
        assume a: "lookup fs x = None" "lookup fs' x = Some Dir"
          "''..'' \<notin> set cs \<longrightarrow>
             (\<exists>ys. prefix ys (filter (\<lambda>c. c \<noteq> [] \<and> c \<noteq> ''.'') cs) \<and> x = (cur @ [c]) @ ys)"
        have "\<exists>ys. prefix ys (filter (\<lambda>c. c \<noteq> [] \<and> c \<noteq> ''.'') (c # cs)) \<and> x = cur @ ys"
          if "''..'' \<notin> set (c # cs)"
        proof -
          from that a(3) obtain ys where
            ys: "prefix ys (filter (\<lambda>c. c \<noteq> [] \<and> c \<noteq> ''.'') cs)" "x = (cur @ [c]) @ ys" by auto
          then have "prefix (c # ys) (filter (\<lambda>c. c \<noteq> [] \<and> c \<noteq> ''.'') (c # cs))" "x = cur @ c # ys"
            using make(1,2) by auto
          then show ?thesis by blast
        qed
        with a(1,2) show ?thesis by blast
      qed
    qed
  qed
qed



lemma mkdir_p_frame:
  assumes "mkdir_p fs d = (r, fs1)"
  shows "cwd fs1 = cwd fs"
    and "lookup (files fs1) x = lookup (files fs) x
         \<or> (lookup (files fs) x = None \<and> lookup (files fs1) x = Some Dir
            \<and> (''..'' \<notin> set (steps d) \<longrightarrow> (\<exists>ys. prefix ys (steps d) \<and> x = start_node fs d @ ys)))"
proof -
  show "cwd fs1 = cwd fs" using assms by (auto simp: mkdir_p_def split: if_splits prod.splits)
  show "lookup (files fs1) x = lookup (files fs) x
         \<or> (lookup (files fs) x = None \<and> lookup (files fs1) x = Some Dir
            \<and> (''..'' \<notin> set (steps d) \<longrightarrow> (\<exists>ys. prefix ys (steps d) \<and> x = start_node fs d @ ys)))"
  proof (cases "d = []")
    case True with assms show ?thesis by (simp add: mkdir_p_def)
  next
    case False
    obtain r' m where m: "makedirs (files fs) (start_node fs d) 0 (split_sep d) = (r', m)"
      by (cases "makedirs (files fs) (start_node fs d) 0 (split_sep d)")
    with assms False have f: "files fs1 = m" by (auto simp: mkdir_p_def)
    from makedirs_frame[OF m, of x] show ?thesis
      unfolding f dotdot_steps steps_def by simp
  qed
qed


section \<open>Lemmas: opening and writing\<close>

lemma open_wb_InrD:
  assumes "open_wb fs f = Inr p"
  shows "refused f = None" "walk (files fs) (start_node fs f) (steps f) = Inr p"
    "lookup (files fs) p \<noteq> Some Dir" "\<not> names_directory f" "p \<noteq> []" "p = node_of fs f"
proof -
  show r: "refused f = None" using assms by (auto simp: open_wb_def split: option.splits)
  have ns: "last f \<noteq> sep"
    using assms r by (auto simp: open_wb_def split: sum.splits option.splits node.splits)
  show w: "walk (files fs) (start_node fs f) (steps f) = Inr p"
    using assms r ns
    by (auto simp: open_wb_def split: sum.splits option.splits node.splits if_splits)
  show d: "lookup (files fs) p \<noteq> Some Dir"
    using assms r ns w by (auto simp: open_wb_def)
  show "\<not> names_directory f"
    using assms r ns w by (auto simp: open_wb_def split: option.splits node.splits if_splits)
  show "p \<noteq> []" using d by (auto simp: lookup_def)
  show "p = node_of fs f" using walk_dest[OF w] by (simp add: node_of_def)
qed

lemma stat_after_write:
  assumes "open_wb fs f = Inr p"
  shows "stat (write_file fs p b) f = Inr (File b)"
proof -
  note o = open_wb_InrD[OF assms]
  have l: "lookup (files (write_file fs p b)) x = (if x = p then Some (File b) else lookup (files fs) x)"
    for x by (rule write_file_lookup[OF o(5)])
  have "walk (files (write_file fs p b)) (start_node fs f) (steps f) = Inr p"
    by (rule walk_mono[OF _ o(2)]) (use o(3) l in auto)
  moreover have "start_node (write_file fs p b) f = start_node fs f"
    by (simp add: start_node_def write_file_def)
  ultimately show ?thesis using o(1,4) l[of p] by (simp add: stat_def)
qed

text \<open>
  What one write changes, whether it returns or raises, and where the file is once it
  has returned.
\<close>

lemma write_pickled_frame:
  assumes "write_pickled P fs f v = (r, fs')"
  shows "cwd fs' = cwd fs"
    and "changes (files fs) (files fs') (node_of fs f)"
    and "''..'' \<notin> set (steps f) \<Longrightarrow> touches (files fs) (files fs') (node_of fs f)"
proof -
  obtain r1 fs1 where m: "mkdir_p fs (dirname f) = (r1, fs1)" by (cases "mkdir_p fs (dirname f)")
  note mf = mkdir_p_frame[OF m]
  have fr: "lookup (files fs') x = lookup (files fs) x
            \<or> (lookup (files fs) x = None \<and> lookup (files fs') x = Some Dir
               \<and> (''..'' \<notin> set (steps f) \<longrightarrow> comparable x (node_of fs f)))
            \<or> (x = node_of fs f \<and> lookup (files fs) x \<noteq> Some Dir \<and> is_file (lookup (files fs') x))"
    (is "?A fs' \<or> ?B fs' \<or> ?C fs'")
    and c: "cwd fs' = cwd fs" for x
  proof -
    have m1: "?A fs1 \<or> ?B fs1"
    proof (cases "dirname f = []")
      case True
      with m have "fs1 = fs" by (simp add: mkdir_p_def)
      then show ?thesis by simp
    next
      case False
      from mf(2)[of x] show ?thesis
      proof (elim disjE conjE)
        assume "lookup (files fs1) x = lookup (files fs) x" then show ?thesis by simp
      next
        assume a: "lookup (files fs) x = None" "lookup (files fs1) x = Some Dir"
          "''..'' \<notin> set (steps (dirname f)) \<longrightarrow>
             (\<exists>ys. prefix ys (steps (dirname f)) \<and> x = start_node fs (dirname f) @ ys)"
        have "comparable x (node_of fs f)" if nd: "''..'' \<notin> set (steps f)"
        proof -
          have "''..'' \<notin> set (steps (dirname f))" using nd steps_dirname[of f] by auto
          with a(3) obtain ys where ys: "prefix ys (steps (dirname f))"
            "x = start_node fs (dirname f) @ ys" by blast
          from ys(1) steps_dirname[of f] have "prefix ys (steps f)"
            by (metis prefix_prefix)
          then have "prefix x (start_node fs f @ steps f)"
            using ys(2) start_node_dirname[OF False] by simp
          then show ?thesis using node_of_plain[OF nd] by (simp add: comparable_def)
        qed
        with a(1,2) show ?thesis by blast
      qed
    qed
    show "cwd fs' = cwd fs" using assms m mf(1)
      by (auto simp: write_pickled_def pickle_to_file_def write_file_def
            split: option.splits sum.splits prod.splits)
    show "?A fs' \<or> ?B fs' \<or> ?C fs'"
    proof (cases r1)
      case (Some e)
      with assms m have "fs' = fs1" by (simp add: write_pickled_def)
      with m1 show ?thesis by blast
    next
      case None
      with assms m have p: "pickle_to_file P fs1 f v = (r, fs')" by (simp add: write_pickled_def)
      show ?thesis
      proof (cases "open_wb fs1 f")
        case (Inl e)
        with p have "fs' = fs1" by (simp add: pickle_to_file_def)
        with m1 show ?thesis by blast
      next
        case (Inr q)
        note o = open_wb_InrD[OF Inr]
        from p Inr have fs': "fs' = write_file fs1 q (fst (dump P v))"
          by (auto simp: pickle_to_file_def split: prod.splits)
        have l: "lookup (files fs') x = (if x = q then Some (File (fst (dump P v))) else lookup (files fs1) x)"
          unfolding fs' by (rule write_file_lookup[OF o(5)])
        have q: "q = node_of fs f" using o(6) node_of_cwd[OF mf(1)] by simp
        show ?thesis
        proof (cases "x = q")
          case True
          from m1 o(3) True have "lookup (files fs) x \<noteq> Some Dir" by auto
          with True l q show ?thesis by simp
        next
          case False
          with l have "lookup (files fs') x = lookup (files fs1) x" by simp
          with m1 show ?thesis by auto
        qed
      qed
    qed
  qed
  show "cwd fs' = cwd fs" by (rule c)
  show "changes (files fs) (files fs') (node_of fs f)"
    unfolding changes_def using fr by blast
  show "touches (files fs) (files fs') (node_of fs f)" if "''..'' \<notin> set (steps f)"
    unfolding touches_def using fr that by blast
qed

lemma write_pickled_returned:
  assumes "write_pickled P fs f v = (None, fs')"
  shows "snd (dump P v)" and "stat fs' f = Inr (File (fst (dump P v)))"
proof -
  obtain r1 fs1 where m: "mkdir_p fs (dirname f) = (r1, fs1)" by (cases "mkdir_p fs (dirname f)")
  with assms have r1: "r1 = None" by (cases r1) (auto simp: write_pickled_def)
  with assms m have p: "pickle_to_file P fs1 f v = (None, fs')" by (simp add: write_pickled_def)
  then obtain q where q: "open_wb fs1 f = Inr q"
    by (cases "open_wb fs1 f") (auto simp: pickle_to_file_def)
  from p q show "snd (dump P v)"
    by (auto simp: pickle_to_file_def split: prod.splits if_splits)
  from p q have "fs' = write_file fs1 q (fst (dump P v))"
    by (auto simp: pickle_to_file_def split: prod.splits if_splits)
  with stat_after_write[OF q] show "stat fs' f = Inr (File (fst (dump P v)))" by simp
qed

lemma write_pickled_round_trip:
  assumes "write_pickled P fs f v = (None, fs')" "round_trips P v"
  shows "unpickle_from_file P fs' f = Inr v"
  using write_pickled_returned(2)[OF assms(1)] assms(2)
  by (simp add: unpickle_from_file_def open_rb_def round_trips_def)


section \<open>Lemmas: what a write preserves\<close>

lemma absentD:
  "absent fs r \<Longrightarrow> \<exists>f. r = Inr f \<and> clear_path (files fs) (start_node fs f) (steps f)"
  by (cases r) (simp_all add: absent_def)

lemma clear_path_end: "clear_path fs cur cs \<Longrightarrow> lookup fs (cur @ cs) = None"
  by (simp add: clear_path_iff)

lemma stat_clear:
  assumes "clear_path (files fs) (start_node fs f) (steps f)" "plain_path f"
  shows "stat fs f = Inl FileNotFoundError"
proof (cases "f = []")
  case True then show ?thesis by (simp add: stat_def refused_def)
next
  case False
  have rf: "refused f = None" using assms(2) False by (auto simp: refused_def plain_path_def)
  have pl: "''..'' \<notin> set (steps f)" "\<forall>c\<in>set (steps f). length c \<le> 255"
    using assms(2) steps_subset[of f] by (auto simp: plain_path_def list_all_iff)
  from walk_clear[OF assms(1) pl] clear_path_end[OF assms(1)] rf
  show ?thesis by (auto simp: stat_def)
qed

lemma changes_keeps_dirs: "changes fs fs' q \<Longrightarrow> lookup fs x = Some Dir \<Longrightarrow> lookup fs' x = Some Dir"
  unfolding changes_def by (metis option.distinct(1))


lemma stat_file_preserved:
  assumes "stat fs f = Inr (File b)" "changes (files fs) (files fs') q" "cwd fs' = cwd fs"
  shows "\<exists>b'. stat fs' f = Inr (File b')"
    and "q \<noteq> node_of fs f \<Longrightarrow> stat fs' f = Inr (File b)"
proof -
  from assms(1) obtain p where rf: "refused f = None"
    and w: "walk (files fs) (start_node fs f) (steps f) = Inr p"
    and l: "lookup (files fs) p = Some (File b)" and nd: "\<not> names_directory f"
    by (auto simp: stat_def split: option.splits sum.splits node.splits if_splits)
  have w': "walk (files fs') (start_node fs' f) (steps f) = Inr p"
    unfolding start_node_cwd[OF assms(3)]
    by (rule walk_mono[OF changes_keeps_dirs[OF assms(2)] w])
  have p: "p = node_of fs f" using walk_dest[OF w] by (simp add: node_of_def)
  from assms(2) l have c: "lookup (files fs') p = Some (File b) \<or> (p = q \<and> is_file (lookup (files fs') p))"
    unfolding changes_def by (metis option.distinct(1))
  then obtain b' where "lookup (files fs') p = Some (File b')"
    by (cases "lookup (files fs') p") (auto simp: is_file_def split: node.splits)
  with rf w' nd show "\<exists>b'. stat fs' f = Inr (File b')" by (simp add: stat_def)
  show "stat fs' f = Inr (File b)" if "q \<noteq> node_of fs f"
    using c that p rf w' nd by (simp add: stat_def)
qed

lemma clear_preserved:
  assumes "clear_path fs cur cs" "touches fs fs' q" "\<not> comparable (cur @ cs) q"
  shows "clear_path fs' cur cs"
proof -
  from assms(1) have e: "lookup fs (cur @ cs) = None"
    and f: "\<And>ys. strict_prefix ys cs \<Longrightarrow> \<not> is_file (lookup fs (cur @ ys))"
    by (auto simp: clear_path_iff)
  have nq: "cur @ cs \<noteq> q" using assms(3) by (auto simp: comparable_def)
  have 1: "lookup fs' (cur @ cs) = None"
    using assms(2)[unfolded touches_def, rule_format, of "cur @ cs"] e nq assms(3) by auto
  have 2: "\<not> is_file (lookup fs' (cur @ ys))" if s: "strict_prefix ys cs" for ys
  proof -
    have "cur @ ys \<noteq> q"
    proof
      assume "cur @ ys = q"
      then have "prefix q (cur @ cs)" using s by (auto simp: strict_prefix_def prefix_def)
      with assms(3) show False by (simp add: comparable_def)
    qed
    with assms(2)[unfolded touches_def, rule_format, of "cur @ ys"] f[OF s] show ?thesis by auto
  qed
  from 1 2 show ?thesis by (simp add: clear_path_iff)
qed

section \<open>Lemmas: the stores\<close>

lemma set_asset_tail:
  "(case mkdir_p fs (dirname f) of
      (Some e, fs1) \<Rightarrow> (Inl e, fs1)
    | (None, fs1) \<Rightarrow>
        (case pickle_to_file P fs1 f v of
           (Some e, fs2) \<Rightarrow> (Inl e, fs2)
         | (None, fs2) \<Rightarrow> (Inr (g fs2), fs2)))
   = (case write_pickled P fs f v of
        (Some e, fs') \<Rightarrow> (Inl e, fs')
      | (None, fs') \<Rightarrow> (Inr (g fs'), fs'))"
proof -
  obtain r1 fs1 where m: "mkdir_p fs (dirname f) = (r1, fs1)" by (cases "mkdir_p fs (dirname f)")
  obtain r2 fs2 where p: "pickle_to_file P fs1 f v = (r2, fs2)" by (cases "pickle_to_file P fs1 f v")
  show ?thesis using m p by (cases r1; cases r2) (simp_all add: write_pickled_def)
qed

lemma fs_set_asset_eq:
  "fs_set_asset S P c v fs =
     (case fs_get_path S c of
        Inl e \<Rightarrow> (Inl e, fs)
      | Inr f \<Rightarrow> (case write_pickled P fs f v of
                    (Some e, fs') \<Rightarrow> (Inl e, fs')
                  | (None, fs') \<Rightarrow> (Inr None, fs')))"
proof (cases "fs_get_path S c")
  case (Inl e)
  then show ?thesis by (simp add: fs_set_asset_def)
next
  case (Inr f)
  then show ?thesis
    using set_asset_tail[where fs=fs and f=f and P=P and v=v and g="\<lambda>x. None"] by (simp add: fs_set_asset_def)
qed

lemma versioned_set_asset_eq:
  "versioned_set_asset S P c v fs =
     (case versioned_get_path S c of
        Inl e \<Rightarrow> (Inl e, fs)
      | Inr f \<Rightarrow> (case write_pickled P fs f v of
                    (Some e, fs') \<Rightarrow> (Inl e, fs')
                  | (None, fs') \<Rightarrow> (Inr None, fs')))"
proof (cases "versioned_get_path S c")
  case (Inl e)
  then show ?thesis by (simp add: versioned_set_asset_def)
next
  case (Inr f)
  then show ?thesis
    using set_asset_tail[where fs=fs and f=f and P=P and v=v and g="\<lambda>x. None"] by (simp add: versioned_set_asset_def)
qed

lemma custom_path_set_asset_eq:
  assumes "str_param (dict_get (asset_metadata c) ''path'') ''asset_metadata.path'' = Inr path"
    and "custom_path_get_path S path = Inr f"
  shows "custom_path_set_asset S P c v fs =
     (case write_pickled P fs f v of
        (Some e, fs') \<Rightarrow> (Inl e, fs')
      | (None, fs') \<Rightarrow>
          (Inr (Some \<lparr> asset_key = [pipeline_name c, step_key c, output_name c],
                      metadata_entries = [fspath (abspath (cwd fs') f)] \<rparr>),
           fs'))"
  using assms
    set_asset_tail[where fs=fs and f=f and P=P and v=v and g=
      "\<lambda>x. Some \<lparr> asset_key = [pipeline_name c, step_key c, output_name c],
                  metadata_entries = [fspath (abspath (cwd x) f)] \<rparr>"]
  by (simp add: custom_path_set_asset_def)

lemma case_write_InrD:
  assumes "(case write_pickled P fs f v of
              (Some e, fs1) \<Rightarrow> (Inl e, fs1)
            | (None, fs1) \<Rightarrow> (Inr (g fs1), fs1)) = (Inr r, fs')"
  shows "write_pickled P fs f v = (None, fs') \<and> r = g fs'"
proof -
  obtain r1 fs1 where w: "write_pickled P fs f v = (r1, fs1)" by (cases "write_pickled P fs f v")
  with assms show ?thesis by (cases r1) auto
qed

lemma fs_set_asset_InrD:
  assumes "fs_set_asset S P c v fs = (Inr r, fs')"
  shows "\<exists>f. fs_get_path S c = Inr f \<and> write_pickled P fs f v = (None, fs') \<and> r = None"
proof (cases "fs_get_path S c")
  case (Inl e)
  with assms show ?thesis by (simp add: fs_set_asset_eq)
next
  case (Inr f)
  with assms case_write_InrD[where P=P and fs=fs and f=f and v=v and g="\<lambda>x. None" and r=r and fs'=fs'] show ?thesis
    by (simp add: fs_set_asset_eq)
qed

lemma versioned_set_asset_InrD:
  assumes "versioned_set_asset S P c v fs = (Inr r, fs')"
  shows "\<exists>f. versioned_get_path S c = Inr f \<and> write_pickled P fs f v = (None, fs') \<and> r = None"
proof (cases "versioned_get_path S c")
  case (Inl e)
  with assms show ?thesis by (simp add: versioned_set_asset_eq)
next
  case (Inr f)
  with assms case_write_InrD[where P=P and fs=fs and f=f and v=v and g="\<lambda>x. None" and r=r and fs'=fs'] show ?thesis
    by (simp add: versioned_set_asset_eq)
qed

lemma custom_path_set_asset_InrD:
  assumes "custom_path_set_asset S P c v fs = (Inr r, fs')"
  shows "\<exists>path f. str_param (dict_get (asset_metadata c) ''path'') ''asset_metadata.path'' = Inr path
           \<and> custom_path_get_path S path = Inr f \<and> write_pickled P fs f v = (None, fs')
           \<and> r = Some \<lparr> asset_key = [pipeline_name c, step_key c, output_name c],
                        metadata_entries = [fspath (abspath (cwd fs') f)] \<rparr>"
proof (cases "str_param (dict_get (asset_metadata c) ''path'') ''asset_metadata.path''")
  case (Inl e)
  with assms show ?thesis by (simp add: custom_path_set_asset_def)
next
  case (Inr path)
  note sp = this
  show ?thesis
  proof (cases "custom_path_get_path S path")
    case (Inl e)
    with assms sp show ?thesis by (simp add: custom_path_set_asset_def)
  next
    case (Inr f)
    from assms custom_path_set_asset_eq[OF sp Inr, of P v fs]
      case_write_InrD[where P=P and fs=fs and f=f and v=v and r=r and fs'=fs' and g=
        "\<lambda>x. Some \<lparr> asset_key = [pipeline_name c, step_key c, output_name c],
                    metadata_entries = [fspath (abspath (cwd x) f)] \<rparr>"]
    show ?thesis using sp Inr by simp
  qed
qed

lemma str_param_InrD: "str_param x n = Inr s \<Longrightarrow> x = PyStr s"
  by (cases x) (auto simp: str_param_def)

lemma dict_get_PyStrD: "dict_get d k = PyStr s \<Longrightarrow> d k = Some (PyStr s)"
  by (auto simp: dict_get_def split: option.splits)

lemma versioned_get_path_eq:
  "versioned_get_path S c =
     (case version c of
        None \<Rightarrow> Inl (CheckError ''context.version'')
      | Some v \<Rightarrow> os_path_join (base_dir S) [Some (step_key c), Some (output_name c), Some v])"
  by (simp add: versioned_get_path_def str_param_def opt_str_def split: option.splits)

lemma three_segments:
  assumes "path_segment x" "path_segment y" "path_segment z"
  shows "resolve wd (join2 (join2 (join2 b x) y) z) = resolve wd b @ [x, y, z]"
    and "dirname (join2 (join2 (join2 b x) y) z) \<noteq> []"
    and "\<not> names_directory (join2 (join2 (join2 b x) y) z)"
proof -
  show "resolve wd (join2 (join2 (join2 b x) y) z) = resolve wd b @ [x, y, z]"
    using assms by (simp add: resolve_join2)
  have "join2 (join2 b x) y \<noteq> []" using assms(2) by (rule join2_nonempty)
  then have "sep \<in> set (join2 (join2 (join2 b x) y) z)" using assms(3) by (rule join2_sep_mem)
  then show "dirname (join2 (join2 (join2 b x) y) z) \<noteq> []" by (rule dirname_nonempty)
  show "\<not> names_directory (join2 (join2 (join2 b x) y) z)"
    using assms(3) by (rule names_directory_join2)
qed

lemma fs_get_path_segments:
  assumes "base_dir S = Some b" "source_run_id c = Some r"
  shows "fs_get_path S c = Inr (join2 (join2 (join2 b r) (step_key c)) (output_name c))"
  using assms by (simp add: fs_get_path_def get_run_scoped_output_identifier_def os_path_join_def)

lemma versioned_get_path_segments:
  assumes "base_dir S = Some b" "version c = Some v"
  shows "versioned_get_path S c = Inr (join2 (join2 (join2 b (step_key c)) (output_name c)) v)"
  using assms by (simp add: versioned_get_path_eq os_path_join_def)


lemma segments_plain:
  assumes "path_segment x" "path_segment y" "path_segment z" "''..'' \<notin> set (steps b)"
  shows "''..'' \<notin> set (steps b @ [x, y, z])"
  using assms by (auto simp: path_segment_def)

section \<open>Lemmas: sequences of writes\<close>

lemma changes_refl: "changes fs fs q"
  by (simp add: changes_def)

lemma after_write_frame:
  shows "cwd (after_write P r v fs) = cwd fs"
    and "\<exists>q. changes (files fs) (files (after_write P r v fs)) q"
proof -
  show "cwd (after_write P r v fs) = cwd fs"
  proof (cases r)
    case (Inl e) then show ?thesis by (simp add: after_write_def)
  next
    case (Inr f)
    obtain x fs' where w: "write_pickled P fs f v = (x, fs')" by (cases "write_pickled P fs f v")
    from write_pickled_frame(1)[OF w] Inr w show ?thesis by (simp add: after_write_def)
  qed
  show "\<exists>q. changes (files fs) (files (after_write P r v fs)) q"
  proof (cases r)
    case (Inl e) then show ?thesis using changes_refl by (auto simp: after_write_def)
  next
    case (Inr f)
    obtain x fs' where w: "write_pickled P fs f v = (x, fs')" by (cases "write_pickled P fs f v")
    from write_pickled_frame(2)[OF w] Inr w show ?thesis by (auto simp: after_write_def)
  qed
qed

lemma touches_after_write:
  assumes "''..'' \<notin> set (steps f)"
  shows "touches (files fs) (files (after_write P (Inr f) v fs)) (node_of fs f)"
proof -
  obtain x fs' where w: "write_pickled P fs f v = (x, fs')" by (cases "write_pickled P fs f v")
  from write_pickled_frame(3)[OF w assms] w show ?thesis by (simp add: after_write_def)
qed

lemma writes_to_snoc: "writes_to P (rvs @ [(r, v)]) fs = after_write P r v (writes_to P rvs fs)"
  by (simp add: writes_to_def)

lemma cwd_writes_to: "cwd (writes_to P rvs fs) = cwd fs"
proof (induction rvs rule: rev_induct)
  case Nil show ?case by (simp add: writes_to_def)
next
  case (snoc x rvs)
  obtain r v where x: "x = (r, v)" by (cases x)
  with snoc show ?case by (simp add: writes_to_snoc after_write_frame(1))
qed




lemma clear_after_write:
  assumes "clear_path (files fs) cur cs"
    and "\<And>f. r = Inr f \<Longrightarrow> ''..'' \<notin> set (steps f) \<and> \<not> comparable (cur @ cs) (node_of fs f)"
  shows "clear_path (files (after_write P r v fs)) cur cs"
proof (cases r)
  case (Inl e) with assms(1) show ?thesis by (simp add: after_write_def)
next
  case (Inr f)
  from assms(2)[OF Inr] have 1: "''..'' \<notin> set (steps f)"
    and 2: "\<not> comparable (cur @ cs) (node_of fs f)" by simp_all
  from clear_preserved[OF assms(1) touches_after_write[OF 1] 2] Inr show ?thesis by simp
qed

lemma clear_writes_to:
  assumes "clear_path (files fs) cur cs"
    and "\<And>r v f. (r, v) \<in> set rvs \<Longrightarrow> r = Inr f
           \<Longrightarrow> ''..'' \<notin> set (steps f) \<and> \<not> comparable (cur @ cs) (node_of fs f)"
  shows "clear_path (files (writes_to P rvs fs)) cur cs"
  using assms(2)
proof (induction rvs rule: rev_induct)
  case Nil
  show ?case using assms(1) by (simp add: writes_to_def)
next
  case (snoc x rvs)
  obtain r v where x: "x = (r, v)" by (cases x)
  have prem: "''..'' \<notin> set (steps f) \<and> \<not> comparable (cur @ cs) (node_of fs f)"
    if "(r, v) \<in> set rvs" "r = Inr f" for r v f
    using snoc.prems[of r v f] that by simp
  have ih: "clear_path (files (writes_to P rvs fs)) cur cs" by (rule snoc.IH[OF prem])
  have "''..'' \<notin> set (steps f) \<and> \<not> comparable (cur @ cs) (node_of (writes_to P rvs fs) f)"
    if "r = Inr f" for f
    using snoc.prems[of r v f] that x by (simp add: node_of_cwd[OF cwd_writes_to])
  from clear_after_write[OF ih this] x show ?case by (simp add: writes_to_snoc)
qed


section \<open>Lemmas: the keys of the stores\<close>

lemma same_length_incomparable: "length x = length y \<Longrightarrow> x \<noteq> y \<Longrightarrow> \<not> comparable x y"
  by (auto simp: comparable_def prefix_def)

lemma snd_case_write:
  "snd (case write_pickled P fs f v of
          (Some e, fs') \<Rightarrow> (Inl e, fs')
        | (None, fs') \<Rightarrow> (Inr (g fs'), fs')) = snd (write_pickled P fs f v)"
proof -
  obtain x fs' where w: "write_pickled P fs f v = (x, fs')" by (cases "write_pickled P fs f v")
  then show ?thesis by (cases x) simp_all
qed

lemma snd_fs_set_asset: "snd (fs_set_asset S P c v fs) = after_write P (fs_get_path S c) v fs"
proof (cases "fs_get_path S c")
  case (Inl e) then show ?thesis by (simp add: fs_set_asset_eq after_write_def)
next
  case (Inr f)
  then show ?thesis
    using snd_case_write[where P=P and fs=fs and f=f and v=v and g="\<lambda>x. None"]
    by (simp add: fs_set_asset_eq after_write_def)
qed

lemma snd_versioned_set_asset:
  "snd (versioned_set_asset S P c v fs) = after_write P (versioned_get_path S c) v fs"
proof (cases "versioned_get_path S c")
  case (Inl e) then show ?thesis by (simp add: versioned_set_asset_eq after_write_def)
next
  case (Inr f)
  then show ?thesis
    using snd_case_write[where P=P and fs=fs and f=f and v=v and g="\<lambda>x. None"]
    by (simp add: versioned_set_asset_eq after_write_def)
qed

lemma snd_custom_path_set_asset:
  "snd (custom_path_set_asset S P c v fs) = after_write P (custom_path_filepath S c) v fs"
proof (cases "str_param (dict_get (asset_metadata c) ''path'') ''asset_metadata.path''")
  case (Inl e)
  then show ?thesis by (simp add: custom_path_set_asset_def custom_path_filepath_def after_write_def)
next
  case (Inr path)
  note sp = this
  show ?thesis
  proof (cases "custom_path_get_path S path")
    case (Inl e)
    with sp show ?thesis
      by (simp add: custom_path_set_asset_def custom_path_filepath_def after_write_def)
  next
    case (Inr f)
    from custom_path_set_asset_eq[OF sp Inr, of P v fs]
      snd_case_write[where P=P and fs=fs and f=f and v=v and g=
        "\<lambda>x. Some \<lparr> asset_key = [pipeline_name c, step_key c, output_name c],
                    metadata_entries = [fspath (abspath (cwd x) f)] \<rparr>"]
    show ?thesis using sp Inr by (simp add: custom_path_filepath_def after_write_def)
  qed
qed

lemma fs_writes_eq:
  "fs_writes S P ws fs = writes_to P (map (\<lambda>(c, v). (fs_get_path S c, v)) ws) fs"
  by (induction ws arbitrary: fs)
     (auto simp: fs_writes_def writes_to_def snd_fs_set_asset)

lemma versioned_writes_eq:
  "versioned_writes S P ws fs = writes_to P (map (\<lambda>(c, v). (versioned_get_path S c, v)) ws) fs"
  by (induction ws arbitrary: fs)
     (auto simp: versioned_writes_def writes_to_def snd_versioned_set_asset)

lemma custom_path_writes_eq:
  "custom_path_writes S P ws fs
     = writes_to P (map (\<lambda>(c, v). (custom_path_filepath S c, v)) ws) fs"
  by (induction ws arbitrary: fs)
     (auto simp: custom_path_writes_def writes_to_def snd_custom_path_set_asset)

lemma custom_path_get_asset_eq:
  "custom_path_get_asset S P c fs =
     (case custom_path_filepath S c of Inl e \<Rightarrow> Inl e | Inr f \<Rightarrow> unpickle_from_file P fs f)"
  by (simp add: custom_path_get_asset_def custom_path_filepath_def split: sum.splits)

lemma three_segments_node:
  assumes "path_segment x" "path_segment y" "path_segment z"
  shows "node_of fs (join2 (join2 (join2 b x) y) z) = node_of fs b @ [x, y, z]"
    and "steps (join2 (join2 (join2 b x) y) z) = steps b @ [x, y, z]"
    and "start_node fs (join2 (join2 (join2 b x) y) z) = start_node fs b"
  using assms by (simp_all add: node_of_join2 steps_join2 start_node_join2)

lemma run_scoped_node:
  assumes "run_scoped_segments c" "base_dir S = Some b"
  shows "\<exists>f r. fs_get_path S c = Inr f \<and> source_run_id c = Some r
           \<and> node_of fs f = node_of fs b @ [r, step_key c, output_name c]
           \<and> steps f = steps b @ [r, step_key c, output_name c]
           \<and> start_node fs f = start_node fs b
           \<and> dirname f \<noteq> [] \<and> \<not> names_directory f"
proof -
  from assms(1) obtain r where r: "source_run_id c = Some r"
    and s: "path_segment r" "path_segment (step_key c)" "path_segment (output_name c)"
    by (auto simp: run_scoped_segments_def split: option.splits)
  from fs_get_path_segments[OF assms(2) r] three_segments_node(1,3)[OF s, where fs=fs and b=b]
    three_segments_node(2)[OF s, where b=b]
    three_segments(2,3)[OF s, where b=b] r show ?thesis by simp
qed

lemma versioned_node:
  assumes "versioned_segments c" "base_dir S = Some b"
  shows "\<exists>f v. versioned_get_path S c = Inr f \<and> version c = Some v
           \<and> node_of fs f = node_of fs b @ [step_key c, output_name c, v]
           \<and> steps f = steps b @ [step_key c, output_name c, v]
           \<and> start_node fs f = start_node fs b
           \<and> dirname f \<noteq> [] \<and> \<not> names_directory f"
proof -
  from assms(1) obtain v where v: "version c = Some v"
    and s: "path_segment (step_key c)" "path_segment (output_name c)" "path_segment v"
    by (auto simp: versioned_segments_def split: option.splits)
  from versioned_get_path_segments[OF assms(2) v] three_segments_node(1,3)[OF s, where fs=fs and b=b]
    three_segments_node(2)[OF s, where b=b]
    three_segments(2,3)[OF s, where b=b] v show ?thesis by simp
qed

lemma fs_get_path_base: "fs_get_path S c = Inr f \<Longrightarrow> \<exists>b. base_dir S = Some b"
  by (cases "base_dir S") (auto simp: fs_get_path_def os_path_join_def)

lemma versioned_get_path_base: "versioned_get_path S c = Inr f \<Longrightarrow> \<exists>b. base_dir S = Some b"
  by (cases "base_dir S") (auto simp: versioned_get_path_eq os_path_join_def split: option.splits)

lemma mem_writes_snoc:
  "mem_writes M (ws @ [(c, v)]) = snd (mem_set_asset (mem_writes M ws) c v)"
  by (simp add: mem_writes_def)

lemma mem_writes_other_key:
  assumes "\<And>c v. (c, v) \<in> set ws \<Longrightarrow> get_run_scoped_output_identifier c \<noteq> k"
  shows "store_values (mem_writes M ws) k = store_values M k"
  using assms
proof (induction ws rule: rev_induct)
  case Nil
  show ?case by (simp add: mem_writes_def)
next
  case (snoc x ws)
  obtain c v where x: "x = (c, v)" by (cases x)
  have prem: "get_run_scoped_output_identifier c \<noteq> k" if "(c, v) \<in> set ws" for c v
    using snoc.prems[of c v] that by simp
  have "get_run_scoped_output_identifier c \<noteq> k" using snoc.prems[of c v] x by simp
  with snoc.IH[OF prem] x show ?case by (simp add: mem_writes_snoc mem_set_asset_def Let_def)
qed

lemma not_found_after_unrelated_writes:
  assumes "clear_path (files fs) (start_node fs f0) (steps f0)" "plain_path f0"
    and "\<And>r v f. (r, v) \<in> set rvs \<Longrightarrow> r = Inr f
           \<Longrightarrow> ''..'' \<notin> set (steps f) \<and> \<not> comparable (node_of fs f0) (node_of fs f)"
  shows "stat (writes_to P rvs fs) f0 = Inl FileNotFoundError"
proof -
  have pl: "''..'' \<notin> set (steps f0)"
    using assms(2) steps_subset[of f0] by (auto simp: plain_path_def list_all_iff)
  have "clear_path (files (writes_to P rvs fs)) (start_node fs f0) (steps f0)"
    by (rule clear_writes_to[OF assms(1)]) (use assms(3) node_of_plain[OF pl] in auto)
  then have "clear_path (files (writes_to P rvs fs)) (start_node (writes_to P rvs fs) f0) (steps f0)"
    by (simp add: start_node_cwd[OF cwd_writes_to])
  from stat_clear[OF this assms(2)] show ?thesis .
qed

section \<open>Examples: what the system refuses\<close>

text \<open>
  With a base directory that goes up, \<open>set_asset\<close> makes the directories it passes,
  one of them at the very path it then opens: the write raises, and afterwards a
  directory is stored at the path of the context.
\<close>

lemma base_dir_going_up:
  "versioned_get_path store_up ctx_s_out_v7 = Inr ''/tmp/x/s/out/v7/../../../s/out/v7''
   \<and> fst (versioned_set_asset store_up unary_pickle ctx_s_out_v7 1 fresh_fs)
       = Inl IsADirectoryError
   \<and> versioned_has_asset store_up ctx_s_out_v7
        (snd (versioned_set_asset store_up unary_pickle ctx_s_out_v7 1 fresh_fs)) = Inr False
   \<and> versioned_get_asset store_up unary_pickle ctx_s_out_v7
        (snd (versioned_set_asset store_up unary_pickle ctx_s_out_v7 1 fresh_fs))
       = Inl IsADirectoryError"
  by code_simp

text \<open>
  With a version of 256 bytes, \<open>set_asset\<close> makes the directories and raises when
  it opens the file; nothing is stored.
\<close>

lemma name_too_long:
  "versioned_segments ctx_long_version
   \<and> fst (versioned_set_asset store_tmp_x unary_pickle ctx_long_version 1 fresh_fs)
       = Inl OSError
   \<and> versioned_has_asset store_tmp_x ctx_long_version
        (snd (versioned_set_asset store_tmp_x unary_pickle ctx_long_version 1 fresh_fs))
       = Inr False"
  by code_simp

section \<open>The claims\<close>




text \<open>
  Claim C2 (round trip). For every backend: when the serializer round-trips the value
  \<open>v\<close> and \<open>set_asset(ctx, v)\<close> has returned, \<open>get_asset(ctx)\<close> on the state it
  leaves returns \<open>v\<close>. The in-memory \<open>set_asset\<close> always returns; a filesystem
  \<open>set_asset\<close> returns when the store computes a path for the context and the
  system lets it make the directories and open the file.
\<close>

theorem round_trip:
  assumes "round_trips P v"
  shows "mem_get_asset (snd (mem_set_asset M c v)) c = Inr v
       \<and> (fs_set_asset S P c v fs = (Inr r, fs') \<longrightarrow> fs_get_asset S P c fs' = Inr v)
       \<and> (custom_path_set_asset S P c v fs = (Inr r, fs')
            \<longrightarrow> custom_path_get_asset S P c fs' = Inr v)
       \<and> (versioned_set_asset S P c v fs = (Inr r, fs')
            \<longrightarrow> versioned_get_asset S P c fs' = Inr v)"
proof (intro conjI impI)
  show "mem_get_asset (snd (mem_set_asset M c v)) c = Inr v"
    by (simp add: mem_get_asset_def mem_set_asset_def Let_def)
  {
    assume "fs_set_asset S P c v fs = (Inr r, fs')"
    from fs_set_asset_InrD[OF this] obtain f where
      p: "fs_get_path S c = Inr f" and w: "write_pickled P fs f v = (None, fs')" by blast
    from write_pickled_round_trip[OF w assms] p show "fs_get_asset S P c fs' = Inr v"
      by (simp add: fs_get_asset_def)
  }
  {
    assume "custom_path_set_asset S P c v fs = (Inr r, fs')"
    from custom_path_set_asset_InrD[OF this] obtain path f where
      sp: "str_param (dict_get (asset_metadata c) ''path'') ''asset_metadata.path'' = Inr path"
      and p: "custom_path_get_path S path = Inr f"
      and w: "write_pickled P fs f v = (None, fs')" by blast
    from write_pickled_round_trip[OF w assms] sp p show "custom_path_get_asset S P c fs' = Inr v"
      by (simp add: custom_path_get_asset_def)
  }
  {
    assume "versioned_set_asset S P c v fs = (Inr r, fs')"
    from versioned_set_asset_InrD[OF this] obtain f where
      p: "versioned_get_path S c = Inr f" and w: "write_pickled P fs f v = (None, fs')" by blast
    from write_pickled_round_trip[OF w assms] p show "versioned_get_asset S P c fs' = Inr v"
      by (simp add: versioned_get_asset_def)
  }
qed

theorem round_trip_witness:
  "round_trips unary_pickle 42
   \<and> fst (versioned_set_asset store_tmp_x unary_pickle ctx_s_out_v7 42 fresh_fs) = Inr None
   \<and> versioned_get_asset store_tmp_x unary_pickle ctx_s_out_v7
       (snd (versioned_set_asset store_tmp_x unary_pickle ctx_s_out_v7 42 fresh_fs)) = Inr 42
   \<and> fst (fs_set_asset store_dot unary_pickle ctx_r1_a_result 42 fresh_fs) = Inr None
   \<and> fs_get_asset store_dot unary_pickle ctx_r1_a_result
       (snd (fs_set_asset store_dot unary_pickle ctx_r1_a_result 42 fresh_fs)) = Inr 42
   \<and> custom_path_get_asset store_tmp_x unary_pickle ctx_reports
       (snd (custom_path_set_asset store_tmp_x unary_pickle ctx_reports 42 fresh_fs)) = Inr 42
   \<and> mem_get_asset (snd (mem_set_asset mem_asset_store ctx_r1_a_result (42::nat)))
       ctx_r1_a_result = Inr 42"
proof -
  have h: "round_trips unary_pickle 42" by (simp add: round_trips_def unary_pickle_def)
  have sv: "fst (versioned_set_asset store_tmp_x unary_pickle ctx_s_out_v7 42 fresh_fs) = Inr None"
    by code_simp
  have sf: "fst (fs_set_asset store_dot unary_pickle ctx_r1_a_result 42 fresh_fs) = Inr None"
    by code_simp
  have "case fst (custom_path_set_asset store_tmp_x unary_pickle ctx_reports 42 fresh_fs) of
          Inl e \<Rightarrow> False | Inr m \<Rightarrow> True"
    by code_simp
  then obtain m where
    sc: "fst (custom_path_set_asset store_tmp_x unary_pickle ctx_reports 42 fresh_fs) = Inr m"
    by (auto split: sum.splits)
  note tv = round_trip[OF h, where S = store_tmp_x and c = ctx_s_out_v7 and fs = fresh_fs
              and M = mem_asset_store and r = None
              and fs' = "snd (versioned_set_asset store_tmp_x unary_pickle ctx_s_out_v7 42 fresh_fs)"]
  note tf = round_trip[OF h, where S = store_dot and c = ctx_r1_a_result and fs = fresh_fs
              and M = mem_asset_store and r = None
              and fs' = "snd (fs_set_asset store_dot unary_pickle ctx_r1_a_result 42 fresh_fs)"]
  note tc = round_trip[OF h, where S = store_tmp_x and c = ctx_reports and fs = fresh_fs
              and M = mem_asset_store and r = m
              and fs' = "snd (custom_path_set_asset store_tmp_x unary_pickle ctx_reports 42 fresh_fs)"]
  have gv: "versioned_get_asset store_tmp_x unary_pickle ctx_s_out_v7
       (snd (versioned_set_asset store_tmp_x unary_pickle ctx_s_out_v7 42 fresh_fs)) = Inr 42"
    using tv sv[symmetric] by (simp add: prod_eq_iff)
  have gf: "fs_get_asset store_dot unary_pickle ctx_r1_a_result
       (snd (fs_set_asset store_dot unary_pickle ctx_r1_a_result 42 fresh_fs)) = Inr 42"
    using tf sf[symmetric] by (simp add: prod_eq_iff)
  have gc: "custom_path_get_asset store_tmp_x unary_pickle ctx_reports
       (snd (custom_path_set_asset store_tmp_x unary_pickle ctx_reports 42 fresh_fs)) = Inr 42"
    using tc sc[symmetric] by (simp add: prod_eq_iff)
  have gm: "mem_get_asset (snd (mem_set_asset mem_asset_store ctx_r1_a_result (42::nat)))
       ctx_r1_a_result = Inr 42"
    using tf by blast
  from h sv sf gv gf gc gm show ?thesis by simp
qed

text \<open>
  Claim C3, as the code has it (cache miss). \<open>get_asset(ctx)\<close> fails with the
  specification's NotFoundError (\<open>KeyError\<close> in memory, \<open>FileNotFoundError\<close> on
  the filesystem) when nothing is stored under the key of \<open>ctx\<close> beforehand and no
  prior \<open>set_asset\<close> was for a context with that key. The key is
  \<open>(source_run_id, step_key, output_name)\<close> for the in-memory and the run-scoped
  store and \<open>(step_key, output_name, version)\<close> for the version-scoped store, where
  on the filesystem each field is one path segment; for the explicit-path store it is
  the file that \<open>asset_metadata["path"]\<close> names, and every prior write was to a path
  that never goes up and names a node that is not that file, not above it and not
  below it. On the filesystem the path of \<open>ctx\<close> is one the system accepts, without
  \<open>..\<close>, and nothing is at it beforehand, with no file on the way to it. The
  version-scoped \<open>has_asset(ctx)\<close> then returns false.
\<close>

theorem not_found_without_write:
  "(store_values M (get_run_scoped_output_identifier ctx) = None
      \<and> (\<forall>(c, v) \<in> set ws.
            get_run_scoped_output_identifier c \<noteq> get_run_scoped_output_identifier ctx) \<longrightarrow>
      mem_get_asset (mem_writes M ws) ctx = Inl KeyError)
   \<and> (absent fs (fs_get_path S ctx) \<and> plain (fs_get_path S ctx) \<and> run_scoped_segments ctx
      \<and> (\<forall>(c, v) \<in> set ws. run_scoped_segments c
            \<and> get_run_scoped_output_identifier c \<noteq> get_run_scoped_output_identifier ctx) \<longrightarrow>
      fs_get_asset S P ctx (fs_writes S P ws fs) = Inl FileNotFoundError)
   \<and> (absent fs (custom_path_filepath S ctx) \<and> plain (custom_path_filepath S ctx)
      \<and> (\<forall>(c, v) \<in> set ws.
            unrelated fs (custom_path_filepath S ctx) (custom_path_filepath S c)) \<longrightarrow>
      custom_path_get_asset S P ctx (custom_path_writes S P ws fs) = Inl FileNotFoundError)
   \<and> (absent fs (versioned_get_path S ctx) \<and> plain (versioned_get_path S ctx)
      \<and> versioned_segments ctx
      \<and> (\<forall>(c, v) \<in> set ws. versioned_segments c \<and> version_key c \<noteq> version_key ctx) \<longrightarrow>
      versioned_get_asset S P ctx (versioned_writes S P ws fs) = Inl FileNotFoundError
      \<and> versioned_has_asset S ctx (versioned_writes S P ws fs) = Inr False)"
proof (intro conjI impI)
  assume a: "store_values M (get_run_scoped_output_identifier ctx) = None
      \<and> (\<forall>(c, v) \<in> set ws.
            get_run_scoped_output_identifier c \<noteq> get_run_scoped_output_identifier ctx)"
  then have "get_run_scoped_output_identifier c \<noteq> get_run_scoped_output_identifier ctx"
    if "(c, v) \<in> set ws" for c v using that by auto
  from mem_writes_other_key[of ws "get_run_scoped_output_identifier ctx" M, OF this] a
  show "mem_get_asset (mem_writes M ws) ctx = Inl KeyError"
    by (simp add: mem_get_asset_def Let_def)
next
  assume a: "absent fs (fs_get_path S ctx) \<and> plain (fs_get_path S ctx) \<and> run_scoped_segments ctx
      \<and> (\<forall>(c, v) \<in> set ws. run_scoped_segments c
            \<and> get_run_scoped_output_identifier c \<noteq> get_run_scoped_output_identifier ctx)"
  from absentD[of fs "fs_get_path S ctx"] a obtain f0 where
    p0: "fs_get_path S ctx = Inr f0"
    and cl: "clear_path (files fs) (start_node fs f0) (steps f0)" by blast
  from a p0 have pl0: "plain_path f0" by (simp add: plain_def)
  from fs_get_path_base[OF p0] obtain b where b: "base_dir S = Some b" by blast
  from a have s0: "run_scoped_segments ctx" by simp
  from run_scoped_node[OF s0 b, of fs] p0 obtain x0 where
    x0: "source_run_id ctx = Some x0"
    and q: "node_of fs f0 = node_of fs b @ [x0, step_key ctx, output_name ctx]"
    and sf: "steps f0 = steps b @ [x0, step_key ctx, output_name ctx]" by auto
  have "''..'' \<notin> set (steps f0)"
    using pl0 steps_subset[of f0] by (auto simp: plain_path_def list_all_iff)
  then have plb: "''..'' \<notin> set (steps b)" unfolding sf by simp
  let ?rvs = "map (\<lambda>(c, v). (fs_get_path S c, v)) ws"
  have un: "''..'' \<notin> set (steps f) \<and> \<not> comparable (node_of fs f0) (node_of fs f)"
    if "(r, v) \<in> set ?rvs" "r = Inr f" for r v f
  proof -
    from that obtain c where cv: "(c, v) \<in> set ws" and r: "fs_get_path S c = Inr f" by auto
    from a cv have sc: "run_scoped_segments c"
      and ne: "get_run_scoped_output_identifier c \<noteq> get_run_scoped_output_identifier ctx"
      by auto
    from run_scoped_node[OF sc b, of fs] r obtain xc where
      xc: "source_run_id c = Some xc"
      and n: "node_of fs f = node_of fs b @ [xc, step_key c, output_name c]"
      and sc': "steps f = steps b @ [xc, step_key c, output_name c]" by auto
    from sc xc have seg: "path_segment xc" "path_segment (step_key c)"
      "path_segment (output_name c)" by (auto simp: run_scoped_segments_def)
    have 1: "''..'' \<notin> set (steps f)" unfolding sc' by (rule segments_plain[OF seg plb])
    have "node_of fs f0 \<noteq> node_of fs f"
      using ne x0 xc q n by (auto simp: get_run_scoped_output_identifier_def)
    moreover have "length (node_of fs f0) = length (node_of fs f)" using q n by simp
    ultimately have "\<not> comparable (node_of fs f0) (node_of fs f)"
      by (rule same_length_incomparable[rotated])
    with 1 show ?thesis by simp
  qed
  have "stat (writes_to P ?rvs fs) f0 = Inl FileNotFoundError"
    by (rule not_found_after_unrelated_writes[OF cl pl0]) (rule un)
  with p0 show "fs_get_asset S P ctx (fs_writes S P ws fs) = Inl FileNotFoundError"
    by (simp add: fs_get_asset_def fs_writes_eq unpickle_from_file_def open_rb_def)
next
  assume a: "absent fs (custom_path_filepath S ctx) \<and> plain (custom_path_filepath S ctx)
      \<and> (\<forall>(c, v) \<in> set ws.
            unrelated fs (custom_path_filepath S ctx) (custom_path_filepath S c))"
  from absentD[of fs "custom_path_filepath S ctx"] a obtain f0 where
    p0: "custom_path_filepath S ctx = Inr f0"
    and cl: "clear_path (files fs) (start_node fs f0) (steps f0)" by blast
  from a p0 have pl0: "plain_path f0" by (simp add: plain_def)
  let ?rvs = "map (\<lambda>(c, v). (custom_path_filepath S c, v)) ws"
  have un: "''..'' \<notin> set (steps f) \<and> \<not> comparable (node_of fs f0) (node_of fs f)"
    if "(r, v) \<in> set ?rvs" "r = Inr f" for r v f
  proof -
    from that obtain c where cv: "(c, v) \<in> set ws" and r: "custom_path_filepath S c = Inr f"
      by auto
    from a cv have "unrelated fs (custom_path_filepath S ctx) (custom_path_filepath S c)" by auto
    with p0 r show ?thesis by (simp add: unrelated_def)
  qed
  have "stat (writes_to P ?rvs fs) f0 = Inl FileNotFoundError"
    by (rule not_found_after_unrelated_writes[OF cl pl0]) (rule un)
  with p0
  show "custom_path_get_asset S P ctx (custom_path_writes S P ws fs) = Inl FileNotFoundError"
    by (simp add: custom_path_get_asset_eq custom_path_writes_eq unpickle_from_file_def
          open_rb_def)
next
  assume a: "absent fs (versioned_get_path S ctx) \<and> plain (versioned_get_path S ctx)
      \<and> versioned_segments ctx
      \<and> (\<forall>(c, v) \<in> set ws. versioned_segments c \<and> version_key c \<noteq> version_key ctx)"
  from absentD[of fs "versioned_get_path S ctx"] a obtain f0 where
    p0: "versioned_get_path S ctx = Inr f0"
    and cl: "clear_path (files fs) (start_node fs f0) (steps f0)" by blast
  from a p0 have pl0: "plain_path f0" by (simp add: plain_def)
  from versioned_get_path_base[OF p0] obtain b where b: "base_dir S = Some b" by blast
  from a have s0: "versioned_segments ctx" by simp
  from versioned_node[OF s0 b, of fs] p0 obtain v0 where
    v0: "version ctx = Some v0"
    and q: "node_of fs f0 = node_of fs b @ [step_key ctx, output_name ctx, v0]"
    and sf: "steps f0 = steps b @ [step_key ctx, output_name ctx, v0]" by auto
  have "''..'' \<notin> set (steps f0)"
    using pl0 steps_subset[of f0] by (auto simp: plain_path_def list_all_iff)
  then have plb: "''..'' \<notin> set (steps b)" unfolding sf by simp
  let ?rvs = "map (\<lambda>(c, v). (versioned_get_path S c, v)) ws"
  have un: "''..'' \<notin> set (steps f) \<and> \<not> comparable (node_of fs f0) (node_of fs f)"
    if "(r, v) \<in> set ?rvs" "r = Inr f" for r v f
  proof -
    from that obtain c where cv: "(c, v) \<in> set ws" and r: "versioned_get_path S c = Inr f"
      by auto
    from a cv have sc: "versioned_segments c" and ne: "version_key c \<noteq> version_key ctx" by auto
    from versioned_node[OF sc b, of fs] r obtain vc where
      vc: "version c = Some vc"
      and n: "node_of fs f = node_of fs b @ [step_key c, output_name c, vc]"
      and sc': "steps f = steps b @ [step_key c, output_name c, vc]" by auto
    from sc vc have seg: "path_segment (step_key c)" "path_segment (output_name c)"
      "path_segment vc" by (auto simp: versioned_segments_def)
    have 1: "''..'' \<notin> set (steps f)" unfolding sc' by (rule segments_plain[OF seg plb])
    have "node_of fs f0 \<noteq> node_of fs f"
      using ne v0 vc q n by (auto simp: version_key_def)
    moreover have "length (node_of fs f0) = length (node_of fs f)" using q n by simp
    ultimately have "\<not> comparable (node_of fs f0) (node_of fs f)"
      by (rule same_length_incomparable[rotated])
    with 1 show ?thesis by simp
  qed
  have st: "stat (writes_to P ?rvs fs) f0 = Inl FileNotFoundError"
    by (rule not_found_after_unrelated_writes[OF cl pl0]) (rule un)
  with p0
  show "versioned_get_asset S P ctx (versioned_writes S P ws fs) = Inl FileNotFoundError"
    by (simp add: versioned_get_asset_def versioned_writes_eq unpickle_from_file_def open_rb_def)
  from st p0
  show "versioned_has_asset S ctx (versioned_writes S P ws fs) = Inr False"
    by (simp add: versioned_has_asset_def versioned_writes_eq os_path_exists_def
          os_path_isdir_def)
qed

theorem not_found_without_write_witness:
  "mem_get_asset (mem_writes mem_asset_store [(ctx_r1_b_result, 5::nat)]) ctx_r1_a_result
     = Inl KeyError
   \<and> absent fresh_fs (fs_get_path store_tmp_x ctx_r1_a_result)
   \<and> plain (fs_get_path store_tmp_x ctx_r1_a_result)
   \<and> fs_get_asset store_tmp_x unary_pickle ctx_r1_a_result
       (fs_writes store_tmp_x unary_pickle [(ctx_r1_b_result, 5)] fresh_fs)
     = Inl FileNotFoundError
   \<and> absent fresh_fs (custom_path_filepath store_tmp_x ctx_reports)
   \<and> plain (custom_path_filepath store_tmp_x ctx_reports)
   \<and> unrelated fresh_fs (custom_path_filepath store_tmp_x ctx_reports)
        (custom_path_filepath store_tmp_x ctx_reports_other)
   \<and> custom_path_get_asset store_tmp_x unary_pickle ctx_reports
       (custom_path_writes store_tmp_x unary_pickle [(ctx_reports_other, 5)] fresh_fs)
     = Inl FileNotFoundError
   \<and> absent fresh_fs (versioned_get_path store_tmp_x ctx_s_out_v8)
   \<and> plain (versioned_get_path store_tmp_x ctx_s_out_v8)
   \<and> versioned_get_asset store_tmp_x unary_pickle ctx_s_out_v8
       (versioned_writes store_tmp_x unary_pickle [(ctx_s_out_v7, 42)] fresh_fs)
     = Inl FileNotFoundError
   \<and> versioned_has_asset store_tmp_x ctx_s_out_v8
       (versioned_writes store_tmp_x unary_pickle [(ctx_s_out_v7, 42)] fresh_fs) = Inr False"
proof -
  have sa: "run_scoped_segments ctx_r1_a_result"
    by (simp add: run_scoped_segments_def ctx_r1_a_result_def path_segment_def sep_def)
  have sb: "run_scoped_segments ctx_r1_b_result"
    by (simp add: run_scoped_segments_def ctx_r1_b_result_def ctx_r1_a_result_def
          path_segment_def sep_def)
  have ne: "get_run_scoped_output_identifier ctx_r1_b_result
            \<noteq> get_run_scoped_output_identifier ctx_r1_a_result"
    by (simp add: get_run_scoped_output_identifier_def ctx_r1_b_result_def ctx_r1_a_result_def)
  have s7: "versioned_segments ctx_s_out_v7"
    by (simp add: versioned_segments_def ctx_s_out_v7_def path_segment_def sep_def)
  have s8: "versioned_segments ctx_s_out_v8"
    by (simp add: versioned_segments_def ctx_s_out_v8_def ctx_s_out_v7_def
          path_segment_def sep_def)
  have k: "version_key ctx_s_out_v7 \<noteq> version_key ctx_s_out_v8"
    by (simp add: version_key_def ctx_s_out_v8_def ctx_s_out_v7_def)
  have a1: "absent fresh_fs (fs_get_path store_tmp_x ctx_r1_a_result)" by code_simp
  have a2: "absent fresh_fs (custom_path_filepath store_tmp_x ctx_reports)" by code_simp
  have a3: "absent fresh_fs (versioned_get_path store_tmp_x ctx_s_out_v8)" by code_simp
  have p1: "plain (fs_get_path store_tmp_x ctx_r1_a_result)" by code_simp
  have p2: "plain (custom_path_filepath store_tmp_x ctx_reports)" by code_simp
  have p3: "plain (versioned_get_path store_tmp_x ctx_s_out_v8)" by code_simp
  have u: "unrelated fresh_fs (custom_path_filepath store_tmp_x ctx_reports)
        (custom_path_filepath store_tmp_x ctx_reports_other)" by code_simp
  have m0: "store_values (mem_asset_store :: nat InMemoryAssetStore)
              (get_run_scoped_output_identifier ctx_r1_a_result) = None"
    by (simp add: mem_asset_store_def)
  note t1 = not_found_without_write[where M = "mem_asset_store :: nat InMemoryAssetStore"
      and ctx = ctx_r1_a_result and ws = "[(ctx_r1_b_result, 5)]" and fs = fresh_fs
      and S = store_tmp_x and P = unary_pickle]
  note t2 = not_found_without_write[where M = "mem_asset_store :: nat InMemoryAssetStore"
      and ctx = ctx_reports and ws = "[(ctx_reports_other, 5)]" and fs = fresh_fs
      and S = store_tmp_x and P = unary_pickle]
  note t3 = not_found_without_write[where M = "mem_asset_store :: nat InMemoryAssetStore"
      and ctx = ctx_s_out_v8 and ws = "[(ctx_s_out_v7, 42)]" and fs = fresh_fs
      and S = store_tmp_x and P = unary_pickle]
  from t1[THEN conjunct1] t1[THEN conjunct2, THEN conjunct1]
       t2[THEN conjunct2, THEN conjunct2, THEN conjunct1]
       t3[THEN conjunct2, THEN conjunct2, THEN conjunct2]
       sa sb ne s7 s8 k a1 a2 a3 p1 p2 p3 u m0
  show ?thesis by simp
qed

text \<open>
  Claim C3 as stated fails: the in-memory store has seen one write, for a context that
  is not equal to the queried one (it differs in \<open>pipeline_name\<close> and \<open>version\<close>),
  and \<open>get_asset\<close> of the queried context returns the value written, since the two
  contexts have the same \<open>(source_run_id, step_key, output_name)\<close>.
\<close>

theorem found_without_write_for_equal_context:
  "ctx_r1_a_result \<noteq> ctx_other_pipeline
   \<and> mem_get_asset (snd (mem_set_asset mem_asset_store ctx_r1_a_result (7::nat)))
        ctx_other_pipeline = Inr 7"
  by (simp add: mem_get_asset_def mem_set_asset_def Let_def mem_asset_store_def
        get_run_scoped_output_identifier_def ctx_other_pipeline_def ctx_r1_a_result_def)

text \<open>
  Claim C4 (run-scoped path). The run-scoped store computes the path
  \<open>join(base_dir, source_run_id, step_key, output_name)\<close>; when the three fields are
  path segments, the absolute path of the file is the one of the base directory
  followed by \<open>source_run_id/step_key/output_name\<close>, one segment per field in this
  order. Writing \<open>1\<close> under
  run \<open>r1\<close>, step \<open>a\<close>, output \<open>result\<close> with the base directory \<open>/tmp/x\<close>
  puts the file at \<open>/tmp/x/r1/a/result\<close>, and reading that context returns \<open>1\<close>.
\<close>

theorem run_scoped_path:
  "fs_get_path S c
     = os_path_join (base_dir S) [source_run_id c, Some (step_key c), Some (output_name c)]
   \<and> (base_dir S = Some b \<and> source_run_id c = Some r \<and> run_scoped_segments c \<longrightarrow>
        (\<exists>f. fs_get_path S c = Inr f
             \<and> resolve wd f = resolve wd b @ [r, step_key c, output_name c]))
   \<and> fs_get_path store_tmp_x ctx_r1_a_result = Inr ''/tmp/x/r1/a/result''
   \<and> fst (fs_set_asset store_tmp_x unary_pickle ctx_r1_a_result 1 fresh_fs) = Inr None
   \<and> files (snd (fs_set_asset store_tmp_x unary_pickle ctx_r1_a_result 1 fresh_fs))
        [''tmp'', ''x'', ''r1'', ''a'', ''result''] = Some (File (fst (dump unary_pickle 1)))
   \<and> fs_get_asset store_tmp_x unary_pickle ctx_r1_a_result
        (snd (fs_set_asset store_tmp_x unary_pickle ctx_r1_a_result 1 fresh_fs)) = Inr 1"
proof (intro conjI impI)
  show "fs_get_path S c
     = os_path_join (base_dir S) [source_run_id c, Some (step_key c), Some (output_name c)]"
    by (simp add: fs_get_path_def get_run_scoped_output_identifier_def)
next
  assume a: "base_dir S = Some b \<and> source_run_id c = Some r \<and> run_scoped_segments c"
  then have "path_segment r" "path_segment (step_key c)" "path_segment (output_name c)"
    by (auto simp: run_scoped_segments_def)
  from three_segments(1)[OF this] fs_get_path_segments[of S b c r] a
  show "\<exists>f. fs_get_path S c = Inr f \<and> resolve wd f = resolve wd b @ [r, step_key c, output_name c]"
    by simp
next
  show "fs_get_path store_tmp_x ctx_r1_a_result = Inr ''/tmp/x/r1/a/result''" by code_simp
next
  show "fst (fs_set_asset store_tmp_x unary_pickle ctx_r1_a_result 1 fresh_fs) = Inr None"
    by code_simp
next
  show "files (snd (fs_set_asset store_tmp_x unary_pickle ctx_r1_a_result 1 fresh_fs))
        [''tmp'', ''x'', ''r1'', ''a'', ''result''] = Some (File (fst (dump unary_pickle 1)))"
    by code_simp
next
  show "fs_get_asset store_tmp_x unary_pickle ctx_r1_a_result
        (snd (fs_set_asset store_tmp_x unary_pickle ctx_r1_a_result 1 fresh_fs)) = Inr 1"
    by code_simp
qed

theorem run_scoped_path_witness:
  "base_dir store_dot = Some ''.'' \<and> source_run_id ctx_r1_b_result = Some ''r1''
   \<and> run_scoped_segments ctx_r1_b_result
   \<and> fs_get_path store_dot ctx_r1_b_result = Inr ''./r1/b/result''
   \<and> resolve ''/home/dagster'' ''./r1/b/result'' = [''home'', ''dagster'', ''r1'', ''b'', ''result'']"
proof -
  have a: "base_dir store_dot = Some ''.'' \<and> source_run_id ctx_r1_b_result = Some ''r1''
           \<and> run_scoped_segments ctx_r1_b_result"
    by (simp add: store_dot_def ctx_r1_b_result_def ctx_r1_a_result_def run_scoped_segments_def
          path_segment_def sep_def)
  have p: "fs_get_path store_dot ctx_r1_b_result = Inr ''./r1/b/result''" by code_simp
  have r: "resolve ''/home/dagster'' ''.'' = [''home'', ''dagster'']" by code_simp
  from run_scoped_path[of store_dot ctx_r1_b_result "''.''" "''r1''" "''/home/dagster''",
         THEN conjunct2, THEN conjunct1, rule_format, OF a] a p r
  show ?thesis by (simp add: ctx_r1_b_result_def ctx_r1_a_result_def)
qed

text \<open>
  Claim C5 (version-scoped path). The version-scoped store computes the path
  \<open>join(base_dir, step_key, output_name, version)\<close>, and fails its check when the
  version is absent; the path depends on no other field, so two contexts with the same
  \<open>(step_key, output_name, version)\<close> get the same path, whatever their run and
  pipeline.
\<close>

theorem versioned_path_ignores_run:
  "versioned_get_path S c =
     (case version c of
        None \<Rightarrow> Inl (CheckError ''context.version'')
      | Some v \<Rightarrow> os_path_join (base_dir S) [Some (step_key c), Some (output_name c), Some v])
   \<and> (version_key c = version_key c' \<longrightarrow> versioned_get_path S c = versioned_get_path S c')"
  by (simp add: versioned_get_path_eq version_key_def split: option.splits)

theorem versioned_path_ignores_run_witness:
  "version_key ctx_s_out_v7 = version_key ctx_s_out_v7_run2
   \<and> source_run_id ctx_s_out_v7 \<noteq> source_run_id ctx_s_out_v7_run2
   \<and> pipeline_name ctx_s_out_v7 \<noteq> pipeline_name ctx_s_out_v7_run2
   \<and> versioned_get_path store_tmp_x ctx_s_out_v7 = Inr ''/tmp/x/s/out/v7''
   \<and> versioned_get_path store_tmp_x ctx_s_out_v7_run2 = Inr ''/tmp/x/s/out/v7''"
proof -
  have k: "version_key ctx_s_out_v7 = version_key ctx_s_out_v7_run2"
    by (simp add: version_key_def ctx_s_out_v7_run2_def)
  have p: "versioned_get_path store_tmp_x ctx_s_out_v7 = Inr ''/tmp/x/s/out/v7''"
    by code_simp
  from versioned_path_ignores_run[of store_tmp_x ctx_s_out_v7 ctx_s_out_v7_run2,
         THEN conjunct2, rule_format, OF k] k p
  show ?thesis by (simp add: ctx_s_out_v7_run2_def ctx_s_out_v7_def)
qed

text \<open>
  Claim C6 (missing metadata). When \<open>asset_metadata\<close> has no \<open>"path"\<close>, the
  explicit-path store's \<open>set_asset\<close> and \<open>get_asset\<close> fail the check on
  \<open>asset_metadata.path\<close> (the specification's ConfigError) and leave the
  filesystem as it was; when the version is \<open>None\<close>, \<open>set_asset\<close>, \<open>get_asset\<close>
  and \<open>has_asset\<close> of the version-scoped store fail the check on
  \<open>context.version\<close>.
\<close>

theorem missing_metadata_fails:
  "(asset_metadata c ''path'' = None \<longrightarrow>
      custom_path_set_asset S P c v fs = (Inl (CheckError ''asset_metadata.path''), fs)
      \<and> custom_path_get_asset S P c fs = Inl (CheckError ''asset_metadata.path''))
   \<and> (version c = None \<longrightarrow>
      versioned_set_asset S P c v fs = (Inl (CheckError ''context.version''), fs)
      \<and> versioned_get_asset S P c fs = Inl (CheckError ''context.version'')
      \<and> versioned_has_asset S c fs = Inl (CheckError ''context.version''))"
proof (intro conjI impI)
  assume "asset_metadata c ''path'' = None"
  then have sp: "str_param (dict_get (asset_metadata c) ''path'') ''asset_metadata.path''
                 = Inl (CheckError ''asset_metadata.path'')"
    by (simp add: str_param_def dict_get_def)
  show "custom_path_set_asset S P c v fs = (Inl (CheckError ''asset_metadata.path''), fs)"
    using sp by (simp add: custom_path_set_asset_def)
  show "custom_path_get_asset S P c fs = Inl (CheckError ''asset_metadata.path'')"
    using sp by (simp add: custom_path_get_asset_def)
next
  assume "version c = None"
  then have p: "versioned_get_path S c = Inl (CheckError ''context.version'')"
    by (simp add: versioned_get_path_eq)
  show "versioned_set_asset S P c v fs = (Inl (CheckError ''context.version''), fs)"
    using p by (simp add: versioned_set_asset_def)
  show "versioned_get_asset S P c fs = Inl (CheckError ''context.version'')"
    using p by (simp add: versioned_get_asset_def)
  show "versioned_has_asset S c fs = Inl (CheckError ''context.version'')"
    using p by (simp add: versioned_has_asset_def)
qed

theorem missing_metadata_fails_witness:
  "asset_metadata ctx_no_version ''path'' = None \<and> version ctx_no_version = None
   \<and> custom_path_set_asset store_tmp_x unary_pickle ctx_no_version 1 fresh_fs
       = (Inl (CheckError ''asset_metadata.path''), fresh_fs)
   \<and> custom_path_get_asset store_tmp_x unary_pickle ctx_no_version fresh_fs
       = Inl (CheckError ''asset_metadata.path'')
   \<and> versioned_set_asset store_tmp_x unary_pickle ctx_no_version 1 fresh_fs
       = (Inl (CheckError ''context.version''), fresh_fs)
   \<and> versioned_get_asset store_tmp_x unary_pickle ctx_no_version fresh_fs
       = Inl (CheckError ''context.version'')
   \<and> versioned_has_asset store_tmp_x ctx_no_version fresh_fs
       = Inl (CheckError ''context.version'')"
proof -
  have a: "asset_metadata ctx_no_version ''path'' = None"
    by (simp add: ctx_no_version_def ctx_s_out_v7_def)
  have b: "version ctx_no_version = None" by (simp add: ctx_no_version_def)
  note t = missing_metadata_fails[of ctx_no_version store_tmp_x unary_pickle 1 fresh_fs]
  from t[THEN conjunct1, rule_format, OF a] t[THEN conjunct2, rule_format, OF b] a b
  show ?thesis by simp
qed

text \<open>
  Claim C7, as the code has it (key isolation). In the in-memory store, writes under
  two contexts that differ in \<open>source_run_id\<close>, \<open>step_key\<close> or \<open>output_name\<close>
  never collide: after a write under each, each context reads its own value. In the
  run-scoped filesystem store the same holds when each of the three fields of both
  contexts is one path segment: once both writes have returned, each context reads
  the value written under it, never the other's.
\<close>

theorem key_isolation:
  "(get_run_scoped_output_identifier c1 \<noteq> get_run_scoped_output_identifier c2 \<longrightarrow>
      mem_get_asset (snd (mem_set_asset (snd (mem_set_asset M c1 v1)) c2 v2)) c1 = Inr v1
    \<and> mem_get_asset (snd (mem_set_asset (snd (mem_set_asset M c1 v1)) c2 v2)) c2 = Inr v2)
   \<and> (get_run_scoped_output_identifier c1 \<noteq> get_run_scoped_output_identifier c2
      \<and> run_scoped_segments c1 \<and> run_scoped_segments c2
      \<and> round_trips P v1 \<and> round_trips P v2
      \<and> fs_set_asset S P c1 v1 fs = (Inr r1, fs1)
      \<and> fs_set_asset S P c2 v2 fs1 = (Inr r2, fs2) \<longrightarrow>
      fs_get_asset S P c1 fs2 = Inr v1 \<and> fs_get_asset S P c2 fs2 = Inr v2)"
proof (intro conjI impI)
  assume "get_run_scoped_output_identifier c1 \<noteq> get_run_scoped_output_identifier c2"
  then show "mem_get_asset (snd (mem_set_asset (snd (mem_set_asset M c1 v1)) c2 v2)) c1 = Inr v1"
    and "mem_get_asset (snd (mem_set_asset (snd (mem_set_asset M c1 v1)) c2 v2)) c2 = Inr v2"
    by (simp_all add: mem_get_asset_def mem_set_asset_def Let_def)
next
  assume a: "get_run_scoped_output_identifier c1 \<noteq> get_run_scoped_output_identifier c2
      \<and> run_scoped_segments c1 \<and> run_scoped_segments c2
      \<and> round_trips P v1 \<and> round_trips P v2
      \<and> fs_set_asset S P c1 v1 fs = (Inr r1, fs1)
      \<and> fs_set_asset S P c2 v2 fs1 = (Inr r2, fs2)"
  then have ne: "get_run_scoped_output_identifier c1 \<noteq> get_run_scoped_output_identifier c2"
    and s1: "run_scoped_segments c1" and s2: "run_scoped_segments c2"
    and rt1: "round_trips P v1" and rt2: "round_trips P v2"
    and w1: "fs_set_asset S P c1 v1 fs = (Inr r1, fs1)"
    and w2: "fs_set_asset S P c2 v2 fs1 = (Inr r2, fs2)" by simp_all
  from fs_set_asset_InrD[OF w1] obtain f1 where
    p1: "fs_get_path S c1 = Inr f1" and wp1: "write_pickled P fs f1 v1 = (None, fs1)" by blast
  from fs_set_asset_InrD[OF w2] obtain f2 where
    p2: "fs_get_path S c2 = Inr f2" and wp2: "write_pickled P fs1 f2 v2 = (None, fs2)" by blast
  from fs_get_path_base[OF p1] obtain b where b: "base_dir S = Some b" by blast
  from run_scoped_node[OF s1 b, of fs1] p1 obtain x1 where
    x1: "source_run_id c1 = Some x1"
    and n1: "node_of fs1 f1 = node_of fs1 b @ [x1, step_key c1, output_name c1]" by auto
  from run_scoped_node[OF s2 b, of fs1] p2 obtain x2 where
    x2: "source_run_id c2 = Some x2"
    and n2: "node_of fs1 f2 = node_of fs1 b @ [x2, step_key c2, output_name c2]" by auto
  have nodes: "node_of fs1 f2 \<noteq> node_of fs1 f1"
    using ne x1 x2 n1 n2 by (auto simp: get_run_scoped_output_identifier_def)
  have st1: "stat fs1 f1 = Inr (File (fst (dump P v1)))"
    by (rule write_pickled_returned(2)[OF wp1])
  have "stat fs2 f1 = Inr (File (fst (dump P v1)))"
    by (rule stat_file_preserved(2)[OF st1 write_pickled_frame(2)[OF wp2]
          write_pickled_frame(1)[OF wp2] nodes])
  with rt1 p1 show "fs_get_asset S P c1 fs2 = Inr v1"
    by (simp add: fs_get_asset_def unpickle_from_file_def open_rb_def round_trips_def)
  from write_pickled_round_trip[OF wp2 rt2] p2
  show "fs_get_asset S P c2 fs2 = Inr v2" by (simp add: fs_get_asset_def)
qed

theorem key_isolation_witness:
  "get_run_scoped_output_identifier ctx_r1_a_result \<noteq> get_run_scoped_output_identifier ctx_r1_b_result
   \<and> run_scoped_segments ctx_r1_a_result \<and> run_scoped_segments ctx_r1_b_result
   \<and> fst (fs_set_asset store_tmp_x unary_pickle ctx_r1_a_result 1 fresh_fs) = Inr None
   \<and> fst (fs_set_asset store_tmp_x unary_pickle ctx_r1_b_result 2
            (snd (fs_set_asset store_tmp_x unary_pickle ctx_r1_a_result 1 fresh_fs))) = Inr None
   \<and> fs_get_asset store_tmp_x unary_pickle ctx_r1_a_result
        (snd (fs_set_asset store_tmp_x unary_pickle ctx_r1_b_result 2
           (snd (fs_set_asset store_tmp_x unary_pickle ctx_r1_a_result 1 fresh_fs)))) = Inr 1
   \<and> fs_get_asset store_tmp_x unary_pickle ctx_r1_b_result
        (snd (fs_set_asset store_tmp_x unary_pickle ctx_r1_b_result 2
           (snd (fs_set_asset store_tmp_x unary_pickle ctx_r1_a_result 1 fresh_fs)))) = Inr 2
   \<and> mem_get_asset (snd (mem_set_asset (snd (mem_set_asset mem_asset_store ctx_r1_a_result (1::nat)))
        ctx_r1_b_result 2)) ctx_r1_a_result = Inr 1"
proof -
  define fs1 where "fs1 = snd (fs_set_asset store_tmp_x unary_pickle ctx_r1_a_result 1 fresh_fs)"
  define fs2 where "fs2 = snd (fs_set_asset store_tmp_x unary_pickle ctx_r1_b_result 2 fs1)"
  have ne: "get_run_scoped_output_identifier ctx_r1_a_result
            \<noteq> get_run_scoped_output_identifier ctx_r1_b_result"
    by (simp add: get_run_scoped_output_identifier_def ctx_r1_b_result_def ctx_r1_a_result_def)
  have s1: "run_scoped_segments ctx_r1_a_result"
    by (simp add: run_scoped_segments_def ctx_r1_a_result_def path_segment_def sep_def)
  have s2: "run_scoped_segments ctx_r1_b_result"
    by (simp add: run_scoped_segments_def ctx_r1_b_result_def ctx_r1_a_result_def
          path_segment_def sep_def)
  have rt: "round_trips unary_pickle 1" "round_trips unary_pickle 2"
    by (simp_all add: round_trips_def unary_pickle_def)
  have a: "fst (fs_set_asset store_tmp_x unary_pickle ctx_r1_a_result 1 fresh_fs) = Inr None"
    by code_simp
  have b: "fst (fs_set_asset store_tmp_x unary_pickle ctx_r1_b_result 2
            (snd (fs_set_asset store_tmp_x unary_pickle ctx_r1_a_result 1 fresh_fs))) = Inr None"
    by code_simp
  have w1: "fs_set_asset store_tmp_x unary_pickle ctx_r1_a_result 1 fresh_fs = (Inr None, fs1)"
    using a unfolding fs1_def by (metis prod.collapse)
  have w2: "fs_set_asset store_tmp_x unary_pickle ctx_r1_b_result 2 fs1 = (Inr None, fs2)"
    using b unfolding fs2_def fs1_def by (metis prod.collapse)
  note t = key_isolation[where ?c1.0 = ctx_r1_a_result and ?c2.0 = ctx_r1_b_result
             and M = mem_asset_store and ?v1.0 = 1 and ?v2.0 = 2 and S = store_tmp_x
             and P = unary_pickle and fs = fresh_fs and ?r1.0 = None and ?fs1.0 = fs1
             and ?r2.0 = None and ?fs2.0 = fs2]
  from t[THEN conjunct1, rule_format, OF ne] t[THEN conjunct2] ne s1 s2 rt w1 w2 a b
  show ?thesis unfolding fs1_def fs2_def by simp
qed

text \<open>
  Claim C7 as stated fails for the run-scoped filesystem store: the contexts with
  step \<open>a/b\<close>, output \<open>c\<close> and with step \<open>a\<close>, output \<open>b/c\<close> differ in
  \<open>step_key\<close> and in \<open>output_name\<close>, and both get the path
  \<open>/tmp/x/r1/a/b/c\<close>. After \<open>1\<close> is written under the first and \<open>2\<close> under
  the second, reading the first returns \<open>2\<close>.
\<close>

theorem separator_fields_collide:
  "step_key ctx_ab_c \<noteq> step_key ctx_a_bc \<and> output_name ctx_ab_c \<noteq> output_name ctx_a_bc
   \<and> fst (fs_set_asset store_tmp_x unary_pickle ctx_ab_c 1 fresh_fs) = Inr None
   \<and> fst (fs_set_asset store_tmp_x unary_pickle ctx_a_bc 2
            (snd (fs_set_asset store_tmp_x unary_pickle ctx_ab_c 1 fresh_fs))) = Inr None
   \<and> fs_get_asset store_tmp_x unary_pickle ctx_ab_c
        (snd (fs_set_asset store_tmp_x unary_pickle ctx_a_bc 2
           (snd (fs_set_asset store_tmp_x unary_pickle ctx_ab_c 1 fresh_fs)))) = Inr 2"
  by code_simp

text \<open>
  Claim C8, as the code has it. \<open>from_load_context\<close> builds the context that
  \<open>from_output_context\<close> builds for the upstream output, except for \<open>solid_def\<close>,
  which it takes from the loading step. The two contexts have the same
  \<open>step_key\<close>, \<open>output_name\<close>, \<open>asset_metadata\<close>, \<open>pipeline_name\<close>,
  \<open>source_run_id\<close> and \<open>version\<close>, so every store computes the same key for both.
\<close>

theorem load_context_matches_output_context:
  "from_load_context lc
     = (from_output_context (upstream_output lc))\<lparr> solid_def := lc_solid_def lc \<rparr>
   \<and> get_run_scoped_output_identifier (from_load_context lc)
       = get_run_scoped_output_identifier (from_output_context (upstream_output lc))
   \<and> fs_get_path S (from_load_context lc)
       = fs_get_path S (from_output_context (upstream_output lc))
   \<and> asset_metadata (from_load_context lc)
       = asset_metadata (from_output_context (upstream_output lc))
   \<and> versioned_get_path S (from_load_context lc)
       = versioned_get_path S (from_output_context (upstream_output lc))"
  by (simp add: from_load_context_def from_output_context_def Let_def
        get_run_scoped_output_identifier_def fs_get_path_def versioned_get_path_eq
      split: option.splits)

text \<open>
  Claim C8 as stated fails: the context built for \<open>solid_b\<close> loading the output of
  \<open>solid_a\<close> is not the context built for \<open>solid_a\<close> producing it; they differ in
  \<open>solid_def\<close>.
\<close>

theorem load_context_differs_in_solid_def:
  "from_load_context load_by_b \<noteq> from_output_context (upstream_output load_by_b)
   \<and> solid_def (from_load_context load_by_b) = ''solid_b''
   \<and> solid_def (from_output_context (upstream_output load_by_b)) = ''solid_a''"
  by (simp add: from_load_context_def from_output_context_def load_by_b_def output_of_a_def)

text \<open>
  Claim C9 (materialization). When the explicit-path store's \<open>set_asset\<close> returns, it
  returns an \<open>AssetMaterialization\<close> whose one metadata entry is the absolute path of
  \<open>join(base_dir, asset_metadata["path"])\<close>; \<open>set_asset\<close> of the in-memory, the
  run-scoped and the version-scoped store returns \<open>None\<close>.
\<close>

theorem materialization_only_explicit_path:
  "(custom_path_set_asset S P c v fs = (Inr r, fs') \<longrightarrow>
      (\<exists>path f. asset_metadata c ''path'' = Some (PyStr path)
         \<and> os_path_join (base_dir S) [Some path] = Inr f
         \<and> r = Some \<lparr> asset_key = [pipeline_name c, step_key c, output_name c],
                      metadata_entries = [fspath (abspath (cwd fs) f)] \<rparr>))
   \<and> fst (mem_set_asset M c v) = Inr None
   \<and> (fs_set_asset S P c v fs = (Inr r, fs') \<longrightarrow> r = None)
   \<and> (versioned_set_asset S P c v fs = (Inr r, fs') \<longrightarrow> r = None)"
proof (intro conjI impI)
  assume "custom_path_set_asset S P c v fs = (Inr r, fs')"
  from custom_path_set_asset_InrD[OF this] obtain path f where
    sp: "str_param (dict_get (asset_metadata c) ''path'') ''asset_metadata.path'' = Inr path"
    and p: "custom_path_get_path S path = Inr f"
    and w: "write_pickled P fs f v = (None, fs')"
    and r: "r = Some \<lparr> asset_key = [pipeline_name c, step_key c, output_name c],
                       metadata_entries = [fspath (abspath (cwd fs') f)] \<rparr>" by blast
  have "asset_metadata c ''path'' = Some (PyStr path)"
    using sp by (auto dest: str_param_InrD dict_get_PyStrD)
  moreover have "cwd fs' = cwd fs" using write_pickled_frame(1)[OF w] .
  ultimately show "\<exists>path f. asset_metadata c ''path'' = Some (PyStr path)
         \<and> os_path_join (base_dir S) [Some path] = Inr f
         \<and> r = Some \<lparr> asset_key = [pipeline_name c, step_key c, output_name c],
                      metadata_entries = [fspath (abspath (cwd fs) f)] \<rparr>"
    using p r by (auto simp: custom_path_get_path_def)
next
  show "fst (mem_set_asset M c v) = Inr None" by (simp add: mem_set_asset_def Let_def)
next
  assume "fs_set_asset S P c v fs = (Inr r, fs')"
  from fs_set_asset_InrD[OF this] show "r = None" by blast
next
  assume "versioned_set_asset S P c v fs = (Inr r, fs')"
  from versioned_set_asset_InrD[OF this] show "r = None" by blast
qed

theorem materialization_only_explicit_path_witness:
  "fst (custom_path_set_asset store_tmp_x unary_pickle ctx_reports 1 fresh_fs)
     = Inr (Some \<lparr> asset_key = [''pipe'', ''a'', ''result''],
                   metadata_entries = [fspath ''/tmp/x/reports/out.bin''] \<rparr>)
   \<and> fst (custom_path_set_asset store_dot unary_pickle ctx_reports 1 fresh_fs)
     = Inr (Some \<lparr> asset_key = [''pipe'', ''a'', ''result''],
                   metadata_entries = [fspath ''/home/dagster/reports/out.bin''] \<rparr>)
   \<and> fst (fs_set_asset store_tmp_x unary_pickle ctx_r1_a_result 1 fresh_fs) = Inr None
   \<and> fst (versioned_set_asset store_tmp_x unary_pickle ctx_s_out_v7 1 fresh_fs) = Inr None"
proof -
  have a: "fst (custom_path_set_asset store_tmp_x unary_pickle ctx_reports 1 fresh_fs)
     = Inr (Some \<lparr> asset_key = [''pipe'', ''a'', ''result''],
                   metadata_entries = [fspath ''/tmp/x/reports/out.bin''] \<rparr>)"
    by code_simp
  have b: "fst (custom_path_set_asset store_dot unary_pickle ctx_reports 1 fresh_fs)
     = Inr (Some \<lparr> asset_key = [''pipe'', ''a'', ''result''],
                   metadata_entries = [fspath ''/home/dagster/reports/out.bin''] \<rparr>)"
    by code_simp
  have c: "fst (fs_set_asset store_tmp_x unary_pickle ctx_r1_a_result 1 fresh_fs) = Inr None"
    by code_simp
  then have c': "fs_set_asset store_tmp_x unary_pickle ctx_r1_a_result 1 fresh_fs
      = (Inr None, snd (fs_set_asset store_tmp_x unary_pickle ctx_r1_a_result 1 fresh_fs))"
    by (metis prod.collapse)
  have d: "fst (versioned_set_asset store_tmp_x unary_pickle ctx_s_out_v7 1 fresh_fs) = Inr None"
    by code_simp
  from materialization_only_explicit_path[where S = store_tmp_x and P = unary_pickle
         and c = ctx_r1_a_result and v = 1 and fs = fresh_fs and r = None
         and fs' = "snd (fs_set_asset store_tmp_x unary_pickle ctx_r1_a_result 1 fresh_fs)",
         THEN conjunct2, THEN conjunct2, THEN conjunct1, rule_format, OF c'] a b c d
  show ?thesis by simp
qed

text \<open>
  Claim C10 (the run-scoped key). For the in-memory and the run-scoped filesystem
  store the key is \<open>(source_run_id, step_key, output_name)\<close>: two contexts that agree
  on these three fields have the same identifier and the same path, and a value
  written under one of them is the value read under the other, whatever was stored
  before.
\<close>

theorem run_scoped_key_fields:
  assumes "source_run_id c = source_run_id c'" "step_key c = step_key c'"
    "output_name c = output_name c'"
  shows "get_run_scoped_output_identifier c = get_run_scoped_output_identifier c'
       \<and> mem_get_asset (snd (mem_set_asset M c v)) c' = Inr v
       \<and> fs_get_path S c = fs_get_path S c'
       \<and> (round_trips P v \<and> fs_set_asset S P c v fs = (Inr r, fs')
            \<longrightarrow> fs_get_asset S P c' fs' = Inr v)"
proof -
  have k: "get_run_scoped_output_identifier c = get_run_scoped_output_identifier c'"
    using assms by (simp add: get_run_scoped_output_identifier_def)
  have m: "mem_get_asset (snd (mem_set_asset M c v)) c' = Inr v"
    using k by (simp add: mem_get_asset_def mem_set_asset_def Let_def)
  have p: "fs_get_path S c = fs_get_path S c'" using k by (simp add: fs_get_path_def)
  have "fs_get_asset S P c' fs' = Inr v"
    if rt: "round_trips P v" and w: "fs_set_asset S P c v fs = (Inr r, fs')"
  proof -
    from fs_set_asset_InrD[OF w] obtain f where
      f: "fs_get_path S c = Inr f" and wp: "write_pickled P fs f v = (None, fs')" by blast
    from write_pickled_round_trip[OF wp rt] f p show ?thesis by (simp add: fs_get_asset_def)
  qed
  with k m p show ?thesis by blast
qed

theorem run_scoped_key_fields_witness:
  "source_run_id ctx_r1_a_result = source_run_id ctx_other_pipeline
   \<and> step_key ctx_r1_a_result = step_key ctx_other_pipeline
   \<and> output_name ctx_r1_a_result = output_name ctx_other_pipeline
   \<and> pipeline_name ctx_r1_a_result \<noteq> pipeline_name ctx_other_pipeline
   \<and> version ctx_r1_a_result \<noteq> version ctx_other_pipeline
   \<and> mem_get_asset (snd (mem_set_asset mem_asset_store ctx_r1_a_result (7::nat)))
        ctx_other_pipeline = Inr 7
   \<and> fs_get_asset store_tmp_x unary_pickle ctx_other_pipeline
        (snd (fs_set_asset store_tmp_x unary_pickle ctx_r1_a_result 7 fresh_fs)) = Inr 7"
proof -
  have a: "source_run_id ctx_r1_a_result = source_run_id ctx_other_pipeline"
    and b: "step_key ctx_r1_a_result = step_key ctx_other_pipeline"
    and c: "output_name ctx_r1_a_result = output_name ctx_other_pipeline"
    by (simp_all add: ctx_other_pipeline_def)
  have h: "round_trips unary_pickle 7" by (simp add: round_trips_def unary_pickle_def)
  have w: "fst (fs_set_asset store_tmp_x unary_pickle ctx_r1_a_result 7 fresh_fs) = Inr None"
    by code_simp
  then have w': "fs_set_asset store_tmp_x unary_pickle ctx_r1_a_result 7 fresh_fs
       = (Inr None, snd (fs_set_asset store_tmp_x unary_pickle ctx_r1_a_result 7 fresh_fs))"
    by (metis prod.collapse)
  note t = run_scoped_key_fields[OF a b c, where M = mem_asset_store and v = 7
             and S = store_tmp_x and P = unary_pickle and fs = fresh_fs and r = None
             and fs' = "snd (fs_set_asset store_tmp_x unary_pickle ctx_r1_a_result 7 fresh_fs)"]
  from t h w' a b c show ?thesis
    by (simp add: ctx_other_pipeline_def ctx_r1_a_result_def)
qed

end
